theory Spec2Isabelle
  imports Complex_Main "HOL-Library.Word" "HOL-Library.Stream" "HOL-Library.AList"
begin

section \<open>The Pitman-Yor Chinese restaurant process of cpyp/crp.h\<close>

text \<open>
  The class \<open>crp<Dish>\<close> of \<open>src/cpyp/crp.h\<close> is embedded as a record with explicit
  state passing. Its two counters are C++ \<open>unsigned\<close> values and are modelled as 32-bit
  words, so that \<open>++\<close> and \<open>--\<close> wrap around as they do in the program. The hash map
  \<open>dish_locs_\<close> is an association list with distinct keys: its order stands for the
  unspecified iteration order of \<open>std::unordered_map\<close>. A failing \<open>assert\<close> and
  \<open>abort()\<close> end the call with an error value that carries the state reached at that
  point.
\<close>

subsection \<open>Doubles\<close>

text \<open>
  A C++ \<open>double\<close> is a finite number, one of the two infinities or a NaN. Finite values
  are exact reals here: rounding, overflow to infinity and the sign of zero are not
  modelled. The special values follow the IEEE 754 rules the program relies on (NaN as
  the marker of an absent prior, comparisons with NaN are false, \<open>0 / 0\<close> is NaN).

  Leaving out overflow matters where the program computes a number beyond the largest
  double: \<open>4.0 / DBL_MIN\<close> and \<open>lgamma(1e306)\<close> are plus infinity in the program
  and finite numbers below. The properties of this theory are therefore about the
  special values an operation receives or produces by the rules above, and about the
  exact value of a finite result; none of them concludes that a computed double is
  finite from the arithmetic on its operands.
\<close>

datatype double = Fin real | PInf | NInf | NaN

type_synonym u32 = "32 word"

definition isnan :: "double \<Rightarrow> bool" where
  "isnan x = (x = NaN)"

fun isfinite :: "double \<Rightarrow> bool" where
  "isfinite (Fin x) = True"
| "isfinite PInf = False"
| "isfinite NInf = False"
| "isfinite NaN = False"

fun dneg :: "double \<Rightarrow> double" where
  "dneg (Fin x) = Fin (- x)"
| "dneg PInf = NInf"
| "dneg NInf = PInf"
| "dneg NaN = NaN"

fun dadd :: "double \<Rightarrow> double \<Rightarrow> double" where
  "dadd NaN b = NaN"
| "dadd a NaN = NaN"
| "dadd (Fin x) (Fin y) = Fin (x + y)"
| "dadd PInf NInf = NaN"
| "dadd NInf PInf = NaN"
| "dadd PInf b = PInf"
| "dadd a PInf = PInf"
| "dadd NInf b = NInf"
| "dadd a NInf = NInf"

definition dsub :: "double \<Rightarrow> double \<Rightarrow> double" where
  "dsub a b = dadd a (dneg b)"

fun dsign :: "double \<Rightarrow> int" where
  "dsign (Fin x) = (if 0 < x then 1 else if x < 0 then - 1 else 0)"
| "dsign PInf = 1"
| "dsign NInf = - 1"
| "dsign NaN = 0"

definition signed_inf :: "int \<Rightarrow> double" where
  "signed_inf s = (if s = 0 then NaN else if 0 < s then PInf else NInf)"

fun dmul :: "double \<Rightarrow> double \<Rightarrow> double" where
  "dmul NaN b = NaN"
| "dmul a NaN = NaN"
| "dmul (Fin x) (Fin y) = Fin (x * y)"
| "dmul a b = signed_inf (dsign a * dsign b)"

fun ddiv :: "double \<Rightarrow> double \<Rightarrow> double" where
  "ddiv NaN b = NaN"
| "ddiv a NaN = NaN"
| "ddiv (Fin x) (Fin y) = (if y \<noteq> 0 then Fin (x / y) else signed_inf (dsign (Fin x)))"
| "ddiv (Fin x) b = Fin 0"
| "ddiv a (Fin y) = signed_inf (dsign a * (if y < 0 then - 1 else 1))"
| "ddiv a b = NaN"

fun dlt :: "double \<Rightarrow> double \<Rightarrow> bool" where
  "dlt NaN b = False"
| "dlt a NaN = False"
| "dlt (Fin x) (Fin y) = (x < y)"
| "dlt a NInf = False"
| "dlt NInf b = True"
| "dlt PInf b = False"
| "dlt a PInf = True"

fun dle :: "double \<Rightarrow> double \<Rightarrow> bool" where
  "dle NaN b = False"
| "dle a NaN = False"
| "dle (Fin x) (Fin y) = (x \<le> y)"
| "dle NInf b = True"
| "dle a PInf = True"
| "dle a b = False"

definition of_unsigned :: "u32 \<Rightarrow> double" where
  "of_unsigned w = Fin (real (unat w))"

definition of_count :: "nat \<Rightarrow> double" where
  "of_count n = Fin (real n)"

text \<open>
  \<open>log\<close> and \<open>lgamma\<close> of the C library. \<open>lgamma x\<close> is the logarithm of the
  absolute value of the gamma function, infinite at its poles \<open>0, -1, -2, \<dots>\<close>; the
  gamma function is Euler's limit of \<open>n! n^x / (x (x + 1) \<cdots> (x + n))\<close>.
\<close>

fun dlog :: "double \<Rightarrow> double" where
  "dlog (Fin x) = (if 0 < x then Fin (ln x) else if x = 0 then NInf else NaN)"
| "dlog PInf = PInf"
| "dlog NInf = NaN"
| "dlog NaN = NaN"

definition gamma_approx :: "real \<Rightarrow> nat \<Rightarrow> real" where
  "gamma_approx x n = fact n * real n powr x / pochhammer x (Suc n)"

definition gamma_function :: "real \<Rightarrow> real" where
  "gamma_function x = lim (gamma_approx x)"

fun lgamma :: "double \<Rightarrow> double" where
  "lgamma (Fin x) = (if x \<in> \<int> \<and> x \<le> 0 then PInf else Fin (ln \<bar>gamma_function x\<bar>))"
| "lgamma PInf = PInf"
| "lgamma NInf = PInf"
| "lgamma NaN = NaN"

subsection \<open>The random source\<close>

text \<open>
  Modelled from the spec: \<open>random.h\<close> is not among the sources. The spec (section 6)
  asks of the random source uniform reals in \<open>[0, 1)\<close> and a weighted binary choice. An
  engine is the stream of uniform variates it will deliver; every primitive takes the
  next one.
\<close>

type_synonym engine = "real stream"

definition sample_uniform01 :: "engine \<Rightarrow> double \<times> engine" where
  \<comment> \<open>Modelled from the spec: a uniform real in \<open>[0, 1)\<close>, the next of the stream.\<close>
  "sample_uniform01 eng = (Fin (shd eng), stl eng)"

definition sample_bernoulli :: "double \<Rightarrow> double \<Rightarrow> engine \<Rightarrow> bool \<times> engine" where
  \<comment> \<open>Modelled from the spec: the weighted binary choice, true with probability \<open>b / (a + b)\<close>.\<close>
  "sample_bernoulli a b eng =
     (let (u, eng') = sample_uniform01 eng in (dlt (dmul u (dadd a b)) b, eng'))"

subsection \<open>The per-dish table histogram\<close>

text \<open>
  Modelled from the spec: \<open>crp_table_manager.h\<close> is not among the sources. By the
  spec (sections 2 and 6) the histogram of a dish tracks its table count, its customer
  count and, for every occupancy, how many tables have that many customers (the bins).
  \<open>createTable\<close> adds one table with one customer; \<open>shareTable\<close> selects an existing
  table with weight occupancy minus discount and adds a customer to it;
  \<open>removeCustomer\<close> selects a customer, that is a table with weight occupancy, removes
  the customer, closes the table if it became empty and signals \<open>-1\<close> then, \<open>0\<close>
  otherwise. The spec fixes no width for these counts: they are natural numbers.
\<close>

type_synonym bin = "nat \<times> nat"

record crp_table_manager =
  tm_customers :: nat
  tm_tables :: nat
  tm_bins :: "bin list"

definition new_table_manager :: crp_table_manager where
  "new_table_manager = \<lparr>tm_customers = 0, tm_tables = 0, tm_bins = []\<rparr>"

fun add_table_of_size :: "nat \<Rightarrow> bin list \<Rightarrow> bin list" where
  "add_table_of_size k [] = [(k, 1)]"
| "add_table_of_size k ((k', c) # bs) =
     (if k = k' then (k', c + 1) # bs else (k', c) # add_table_of_size k bs)"

fun del_table_of_size :: "nat \<Rightarrow> bin list \<Rightarrow> bin list" where
  "del_table_of_size k [] = []"
| "del_table_of_size k ((k', c) # bs) =
     (if k = k' then (if c \<le> 1 then bs else (k', c - 1) # bs)
      else (k', c) # del_table_of_size k bs)"

text \<open>
  The weighted choice of a bin from a uniform variate: walk the bins, taking the first
  one the remaining mass \<open>r\<close> falls into; the last bin takes whatever is left, so that an
  existing table is selected whenever there is one.
\<close>

fun pick_bin :: "(bin \<Rightarrow> double) \<Rightarrow> double \<Rightarrow> bin list \<Rightarrow> bin option" where
  "pick_bin w r [] = None"
| "pick_bin w r [b] = Some b"
| "pick_bin w r (b # bs) = (if dlt r (w b) then Some b else pick_bin w (dsub r (w b)) bs)"

fun total_weight :: "(bin \<Rightarrow> double) \<Rightarrow> bin list \<Rightarrow> double" where
  "total_weight w [] = Fin 0"
| "total_weight w (b # bs) = dadd (w b) (total_weight w bs)"

definition share_weight :: "double \<Rightarrow> bin \<Rightarrow> double" where
  "share_weight disc b = dmul (dsub (of_count (fst b)) disc) (of_count (snd b))"

definition remove_weight :: "bin \<Rightarrow> double" where
  "remove_weight b = dmul (of_count (fst b)) (of_count (snd b))"

definition create_table :: "crp_table_manager \<Rightarrow> crp_table_manager" where
  \<comment> \<open>Modelled from the spec: \<open>createTable\<close> adds one table with one customer.\<close>
  "create_table t =
     t\<lparr>tm_bins := add_table_of_size 1 (tm_bins t),
       tm_tables := tm_tables t + 1,
       tm_customers := tm_customers t + 1\<rparr>"

definition share_table ::
  "double \<Rightarrow> engine \<Rightarrow> crp_table_manager \<Rightarrow> (crp_table_manager \<times> engine) option" where
  \<comment> \<open>Modelled from the spec: \<open>shareTable\<close>; \<open>None\<close> when there is no table to select.\<close>
  "share_table disc eng t =
     (let (u, eng') = sample_uniform01 eng;
          r = dmul u (total_weight (share_weight disc) (tm_bins t))
      in case pick_bin (share_weight disc) r (tm_bins t) of
           None \<Rightarrow> None
         | Some (k, c) \<Rightarrow>
             Some (t\<lparr>tm_bins := add_table_of_size (k + 1) (del_table_of_size k (tm_bins t)),
                     tm_customers := tm_customers t + 1\<rparr>, eng'))"

definition remove_customer ::
  "engine \<Rightarrow> crp_table_manager \<Rightarrow> (int \<times> crp_table_manager \<times> engine) option" where
  \<comment> \<open>Modelled from the spec: \<open>removeCustomer\<close>; \<open>None\<close> when there is no table to select.\<close>
  "remove_customer eng t =
     (let (u, eng') = sample_uniform01 eng;
          r = dmul u (total_weight remove_weight (tm_bins t))
      in case pick_bin remove_weight r (tm_bins t) of
           None \<Rightarrow> None
         | Some (k, c) \<Rightarrow>
             (if 1 < k
              then Some (0, t\<lparr>tm_bins := add_table_of_size (k - 1) (del_table_of_size k (tm_bins t)),
                               tm_customers := tm_customers t - 1\<rparr>, eng')
              else Some (- 1, t\<lparr>tm_bins := del_table_of_size k (tm_bins t),
                                 tm_customers := tm_customers t - 1,
                                 tm_tables := tm_tables t - 1\<rparr>, eng')))"

subsection \<open>The restaurant\<close>

record 'd crp =
  num_tables :: u32
  num_customers :: u32
  dish_locs :: "('d \<times> crp_table_manager) list"
  discount :: double
  strength :: double
  discount_prior_strength :: double
  discount_prior_beta :: double
  strength_prior_shape :: double
  strength_prior_rate :: double

datatype error =
  Bad_discount
| Bad_strength
| Assert_num_customers
| Assert_has_prior
| Assert_lp_nonpositive
| Assert_lp_finite
| Assert_discount_negative
| No_table_to_select

definition check_hyperparameters :: "'d crp \<Rightarrow> (error \<times> 'd crp) + 'd crp" where
  "check_hyperparameters s =
     (if dlt (discount s) (Fin 0) \<or> dle (Fin 1) (discount s) then Inl (Bad_discount, s)
      else if dle (strength s) (dneg (discount s)) then Inl (Bad_strength, s)
      else Inr s)"

definition crp_new :: "double \<Rightarrow> double \<Rightarrow> (error \<times> 'd crp) + 'd crp" where
  \<comment> \<open>\<open>crp(double disc, double strength)\<close>\<close>
  "crp_new disc str =
     check_hyperparameters
       \<lparr>num_tables = 0, num_customers = 0, dish_locs = [],
        discount = disc, strength = str,
        discount_prior_strength = NaN, discount_prior_beta = NaN,
        strength_prior_shape = NaN, strength_prior_rate = NaN\<rparr>"

definition crp_new_priors ::
  "double \<Rightarrow> double \<Rightarrow> double \<Rightarrow> double \<Rightarrow> double \<Rightarrow> double \<Rightarrow> (error \<times> 'd crp) + 'd crp" where
  \<comment> \<open>\<open>crp(d_strength, d_beta, c_shape, c_rate, d = 0.8, c = 1.0)\<close>\<close>
  "crp_new_priors d_strength d_beta c_shape c_rate d c =
     check_hyperparameters
       \<lparr>num_tables = 0, num_customers = 0, dish_locs = [],
        discount = d, strength = c,
        discount_prior_strength = d_strength, discount_prior_beta = d_beta,
        strength_prior_shape = c_shape, strength_prior_rate = c_rate\<rparr>"

definition has_discount_prior :: "'d crp \<Rightarrow> bool" where
  "has_discount_prior s = (\<not> isnan (discount_prior_strength s))"

definition has_strength_prior :: "'d crp \<Rightarrow> bool" where
  "has_strength_prior s = (\<not> isnan (strength_prior_shape s))"

definition clear :: "'d crp \<Rightarrow> 'd crp" where
  "clear s = s\<lparr>num_tables := 0, num_customers := 0, dish_locs := []\<rparr>"

definition num_tables_of :: "'d crp \<Rightarrow> 'd \<Rightarrow> u32" where
  \<comment> \<open>\<open>num_tables(const Dish&)\<close>\<close>
  "num_tables_of s dish =
     (case map_of (dish_locs s) dish of None \<Rightarrow> 0 | Some t \<Rightarrow> of_nat (tm_tables t))"

text \<open>
  The per-dish accessor \<open>num_customers(const Dish&)\<close> is not embedded. Claim C8
  describes it as the twin of \<open>num_tables_of\<close>, but its body returns
  \<open>it->num_customers()\<close> where the accessor above reads \<open>it->second.num_tables()\<close>:
  the iterator points to a pair of a dish and its histogram, a pair has no member
  \<open>num_customers\<close>, and the member function is ill-formed as soon as it is
  instantiated. There is no value it returns.
\<close>

text \<open>
  \<open>dish_locs_[dish]\<close>: \<open>operator[]\<close> of the hash map inserts a default-constructed
  histogram when the dish has none, and yields the dish's histogram.
\<close>

definition index_dish :: "'d \<Rightarrow> 'd crp \<Rightarrow> 'd crp" where
  "index_dish dish s =
     (case map_of (dish_locs s) dish of
        None \<Rightarrow> s\<lparr>dish_locs := AList.update dish new_table_manager (dish_locs s)\<rparr>
      | Some t \<Rightarrow> s)"

definition loc_of :: "'d \<Rightarrow> 'd crp \<Rightarrow> crp_table_manager" where
  "loc_of dish s =
     (case map_of (dish_locs s) dish of None \<Rightarrow> new_table_manager | Some t \<Rightarrow> t)"

text \<open>
  \<open>increment\<close> (lines 108 to 125) and \<open>decrement\<close> (lines 128 to 143). A call that finds
  no table to select from in a histogram it asks to share a table or to remove a customer
  has no defined behaviour in the program; it ends in the error \<open>No_table_to_select\<close>.
\<close>

definition increment ::
  "'d \<Rightarrow> double \<Rightarrow> 'd crp \<Rightarrow> engine \<Rightarrow> (error \<times> 'd crp) + (int \<times> 'd crp \<times> engine)" where
  "increment dish p0 s0 eng =
     (let s = index_dish dish s0;
          loc = loc_of dish s;
          (share, eng1) =
            (if tm_customers loc \<noteq> 0
             then (let p_empty = dmul (dadd (strength s) (dmul (of_unsigned (num_tables s)) (discount s))) p0;
                       p_share = dsub (of_count (tm_customers loc)) (dmul (of_count (tm_tables loc)) (discount s))
                   in sample_bernoulli p_empty p_share eng)
             else (False, eng))
      in if share
         then (case share_table (discount s) eng1 loc of
                 None \<Rightarrow> Inl (No_table_to_select, s)
               | Some (loc', eng2) \<Rightarrow>
                   Inr (0, s\<lparr>dish_locs := AList.update dish loc' (dish_locs s),
                              num_customers := num_customers s + 1\<rparr>, eng2))
         else Inr (1, s\<lparr>dish_locs := AList.update dish (create_table loc) (dish_locs s),
                          num_tables := num_tables s + 1,
                          num_customers := num_customers s + 1\<rparr>, eng1))"

definition decrement ::
  "'d \<Rightarrow> 'd crp \<Rightarrow> engine \<Rightarrow> (error \<times> 'd crp) + (int \<times> 'd crp \<times> engine)" where
  "decrement dish s0 eng =
     (let s = index_dish dish s0;
          loc = loc_of dish s
      in if tm_customers loc = 0 then Inl (Assert_num_customers, s)
         else if tm_customers loc = 1
         then Inr (- 1, s\<lparr>dish_locs := AList.delete dish (dish_locs s),
                            num_tables := num_tables s - 1,
                            num_customers := num_customers s - 1\<rparr>, eng)
         else (case remove_customer eng loc of
                 None \<Rightarrow> Inl (No_table_to_select, s)
               | Some (delta, loc', eng') \<Rightarrow>
                   Inr (delta, s\<lparr>dish_locs := AList.update dish loc' (dish_locs s),
                                  num_customers := num_customers s - 1,
                                  num_tables := (if delta \<noteq> 0 then num_tables s - 1 else num_tables s)\<rparr>,
                        eng')))"

text \<open>\<open>prob\<close> (lines 145 to 155), with \<open>F\<close> the type \<open>double\<close>.\<close>

definition prob :: "'d crp \<Rightarrow> 'd \<Rightarrow> double \<Rightarrow> double" where
  "prob s dish p0 =
     (let r = dadd (dmul (of_unsigned (num_tables s)) (discount s)) (strength s)
      in case map_of (dish_locs s) dish of
           None \<Rightarrow> ddiv (dmul r p0) (dadd (of_unsigned (num_customers s)) (strength s))
         | Some t \<Rightarrow>
             ddiv (dadd (dsub (of_count (tm_customers t)) (dmul (discount s) (of_count (tm_tables t))))
                        (dmul r p0))
                  (dadd (of_unsigned (num_customers s)) (strength s)))"

subsection \<open>The density helpers\<close>

text \<open>
  Modelled from the spec: \<open>m.h\<close> is not among the sources. By the spec (section 6)
  \<open>logBetaDensity(x, alpha, beta)\<close> and \<open>logGammaDensity(x, shape, rate)\<close> are the
  standard closed forms: the logarithms of
  \<open>x^(alpha - 1) (1 - x)^(beta - 1) / B(alpha, beta)\<close> and of
  \<open>rate^shape x^(shape - 1) exp (- rate x) / Gamma(shape)\<close>.
\<close>

definition log_beta_fn :: "double \<Rightarrow> double \<Rightarrow> double" where
  "log_beta_fn a b = dsub (dadd (lgamma a) (lgamma b)) (lgamma (dadd a b))"

definition log_beta_density :: "double \<Rightarrow> double \<Rightarrow> double \<Rightarrow> double" where
  \<comment> \<open>Modelled from the spec: \<open>logBetaDensity(x, alpha, beta)\<close> of \<open>m.h\<close>.\<close>
  "log_beta_density x alpha beta =
     dsub (dadd (dmul (dsub alpha (Fin 1)) (dlog x))
                (dmul (dsub beta (Fin 1)) (dlog (dsub (Fin 1) x))))
          (log_beta_fn alpha beta)"

definition log_gamma_density :: "double \<Rightarrow> double \<Rightarrow> double \<Rightarrow> double" where
  \<comment> \<open>Modelled from the spec: \<open>logGammaDensity(x, shape, rate)\<close> of \<open>m.h\<close>.\<close>
  "log_gamma_density x shape rate =
     dsub (dsub (dadd (dmul shape (dlog rate)) (dmul (dsub shape (Fin 1)) (dlog x)))
                (dmul rate x))
          (lgamma shape)"

subsection \<open>The likelihood of the seating arrangement\<close>

text \<open>
  \<open>log_likelihood(discount, strength)\<close>. \<open>hyperprior\<close> is the value of \<open>lp\<close> when the
  first assertion is reached: the log-densities of the priors that are present. The two
  loops over \<open>dish_locs_\<close> and over the bins of a histogram are folds.
\<close>

definition hyperprior :: "'d crp \<Rightarrow> double \<Rightarrow> double \<Rightarrow> double" where
  "hyperprior s disc str =
     (let lp = (if has_discount_prior s
                then log_beta_density disc (discount_prior_strength s) (discount_prior_beta s)
                else Fin 0)
      in if has_strength_prior s
         then dadd lp (log_gamma_density (dadd str disc) (strength_prior_shape s) (strength_prior_rate s))
         else lp)"

definition finite_or_abort :: "double \<Rightarrow> error + double" where
  "finite_or_abort lp = (if isfinite lp then Inr lp else Inl Assert_lp_finite)"

definition bins_term :: "double \<Rightarrow> double \<Rightarrow> crp_table_manager \<Rightarrow> double \<Rightarrow> double" where
  "bins_term disc r t lp0 =
     fold (\<lambda>b lp. dadd lp (dmul (dsub (lgamma (dsub (of_count (fst b)) disc)) r) (of_count (snd b))))
       (tm_bins t) lp0"

definition log_likelihood_at :: "'d crp \<Rightarrow> double \<Rightarrow> double \<Rightarrow> error + double" where
  "log_likelihood_at s disc str =
     (let lp = hyperprior s disc str
      in if \<not> dle lp (Fin 0) then Inl Assert_lp_nonpositive
         else if num_customers s \<noteq> 0
         then (if dlt (Fin 0) disc
               then (let r = lgamma (dsub (Fin 1) disc);
                         lp1 = (if str \<noteq> Fin 0
                                then dadd lp (dsub (lgamma str) (lgamma (ddiv str disc)))
                                else lp);
                         lp2 = dadd lp1
                                 (dadd (dadd (dneg (lgamma (dadd str (of_unsigned (num_customers s)))))
                                             (dmul (of_unsigned (num_tables s)) (dlog disc)))
                                       (lgamma (dadd (ddiv str disc) (of_unsigned (num_tables s)))))
                     in if \<not> isfinite lp2 then Inl Assert_lp_finite
                        else finite_or_abort
                               (fold (\<lambda>e. bins_term disc r (snd e)) (dish_locs s) lp2))
               else if disc = Fin 0
               then (let lp1 = dadd lp
                                 (dsub (dadd (lgamma str) (dmul (of_unsigned (num_tables s)) (dlog str)))
                                       (lgamma (dadd str (of_unsigned (num_tables s)))))
                     in if \<not> isfinite lp1 then Inl Assert_lp_finite
                        else finite_or_abort
                               (fold (\<lambda>e lp'. dadd lp' (lgamma (of_count (tm_tables (snd e)))))
                                  (dish_locs s) lp1))
               else Inl Assert_discount_negative)
         else finite_or_abort lp)"

definition log_likelihood :: "'d crp \<Rightarrow> error + double" where
  "log_likelihood s = log_likelihood_at s (discount s) (strength s)"

subsection \<open>Resampling the hyperparameters\<close>

text \<open>
  \<open>slice_sampler1d\<close> (\<open>slice_sampler.h\<close>, not among the sources) is a parameter of the
  model: a function of the log-density, the start value, the engine, the two bounds,
  the step width and the two iteration counts that yields the new value and the engine
  it leaves, or the failed assertion of a log-density evaluation.
  \<open>double_min\<close> is \<open>std::numeric_limits<double>::min()\<close>.
\<close>

type_synonym slice_sampler =
  "(double \<Rightarrow> error + double) \<Rightarrow> double \<Rightarrow> engine \<Rightarrow> double \<Rightarrow> double \<Rightarrow> double \<Rightarrow> u32 \<Rightarrow> u32
   \<Rightarrow> error + (double \<times> engine)"

definition double_min :: double where
  "double_min = Fin (1 / 2 ^ 1022)"

definition resample_strength ::
  "slice_sampler \<Rightarrow> double \<Rightarrow> u32 \<Rightarrow> 'd crp \<Rightarrow> engine \<Rightarrow> (error \<times> 'd crp) + ('d crp \<times> engine)" where
  "resample_strength slice_sampler1d lower niterations s eng =
     (case slice_sampler1d (\<lambda>prop_s. log_likelihood_at s (discount s) prop_s) (strength s) eng
             lower PInf (Fin 0) niterations (100 * niterations) of
        Inl e \<Rightarrow> Inl (e, s)
      | Inr (v, eng') \<Rightarrow> Inr (s\<lparr>strength := v\<rparr>, eng'))"

definition resample_discount ::
  "slice_sampler \<Rightarrow> u32 \<Rightarrow> 'd crp \<Rightarrow> engine \<Rightarrow> (error \<times> 'd crp) + ('d crp \<times> engine)" where
  "resample_discount slice_sampler1d niterations s eng =
     (let min_discount = (if dlt (strength s) (Fin 0) then dsub double_min (strength s) else double_min)
      in case slice_sampler1d (\<lambda>prop_d. log_likelihood_at s prop_d (strength s)) (discount s) eng
                min_discount (Fin 1) (Fin 0) niterations (100 * niterations) of
           Inl e \<Rightarrow> Inl (e, s)
         | Inr (v, eng') \<Rightarrow> Inr (s\<lparr>discount := v\<rparr>, eng'))"

fun resample_loop ::
  "slice_sampler \<Rightarrow> nat \<Rightarrow> u32 \<Rightarrow> 'd crp \<Rightarrow> engine \<Rightarrow> (error \<times> 'd crp) + ('d crp \<times> engine)" where
  "resample_loop slice_sampler1d 0 niterations s eng = Inr (s, eng)"
| "resample_loop slice_sampler1d (Suc n) niterations s eng =
     (case (if has_strength_prior s
            then resample_strength slice_sampler1d (dadd (dneg (discount s)) double_min) niterations s eng
            else Inr (s, eng)) of
        Inl e \<Rightarrow> Inl e
      | Inr (s1, eng1) \<Rightarrow>
          (case (if has_discount_prior s1
                 then resample_discount slice_sampler1d niterations s1 eng1
                 else Inr (s1, eng1)) of
             Inl e \<Rightarrow> Inl e
           | Inr (s2, eng2) \<Rightarrow> resample_loop slice_sampler1d n niterations s2 eng2))"

definition resample_hyperparameters ::
  "slice_sampler \<Rightarrow> 'd crp \<Rightarrow> engine \<Rightarrow> u32 \<Rightarrow> u32 \<Rightarrow> (error \<times> 'd crp) + ('d crp \<times> engine)" where
  "resample_hyperparameters slice_sampler1d s eng nloop niterations =
     (if \<not> (has_discount_prior s \<or> has_strength_prior s) then Inl (Assert_has_prior, s)
      else if num_customers s = 0 then Inr (s, eng)
      else (case resample_loop slice_sampler1d (unat nloop) niterations s eng of
              Inl e \<Rightarrow> Inl e
            | Inr (s1, eng1) \<Rightarrow> resample_strength slice_sampler1d (dneg (discount s1)) niterations s1 eng1))"

subsection \<open>The invariants of the data model\<close>

text \<open>
  The spec's invariants (section 3): every table of a histogram has at least one
  customer and every bin at least one table, the histogram's two counts are the sums
  over its bins, a dish is a key only while it has a customer, and the restaurant's two
  counters are the sums of the per-dish counts.
\<close>

definition bins_customers :: "bin list \<Rightarrow> nat" where
  "bins_customers bs = sum_list (map (\<lambda>b. fst b * snd b) bs)"

definition bins_tables :: "bin list \<Rightarrow> nat" where
  "bins_tables bs = sum_list (map snd bs)"

definition bins_positive :: "bin list \<Rightarrow> bool" where
  "bins_positive bs = list_all (\<lambda>b. 1 \<le> fst b \<and> 1 \<le> snd b) bs"

definition tm_inv :: "crp_table_manager \<Rightarrow> bool" where
  "tm_inv t = (bins_positive (tm_bins t)
     \<and> tm_customers t = bins_customers (tm_bins t)
     \<and> tm_tables t = bins_tables (tm_bins t))"

definition total_customers :: "'d crp \<Rightarrow> nat" where
  "total_customers s = sum_list (map (\<lambda>e. tm_customers (snd e)) (dish_locs s))"

definition total_tables :: "'d crp \<Rightarrow> nat" where
  "total_tables s = sum_list (map (\<lambda>e. tm_tables (snd e)) (dish_locs s))"

definition crp_inv :: "'d crp \<Rightarrow> bool" where
  "crp_inv s = (distinct (map fst (dish_locs s))
     \<and> list_all (\<lambda>e. tm_inv (snd e) \<and> 1 \<le> tm_customers (snd e)) (dish_locs s)
     \<and> unat (num_customers s) = total_customers s
     \<and> unat (num_tables s) = total_tables s)"

text \<open>
  The same invariants with the two counters read modulo \<open>2^32\<close>, as 32-bit words hold
  them: this is what \<open>++\<close> and \<open>--\<close> keep, whatever the number of customers.
\<close>

definition crp_inv_mod :: "'d crp \<Rightarrow> bool" where
  "crp_inv_mod s = (distinct (map fst (dish_locs s))
     \<and> list_all (\<lambda>e. tm_inv (snd e) \<and> 1 \<le> tm_customers (snd e)) (dish_locs s)
     \<and> num_customers s = of_nat (total_customers s)
     \<and> num_tables s = of_nat (total_tables s))"

subsection \<open>Sequences of calls\<close>

text \<open>
  A sequence of \<open>increment\<close>, \<open>decrement\<close> and \<open>clear\<close> calls on one restaurant, the
  engine threaded through; the first failing assertion ends the run.
\<close>

datatype 'd call = Increment 'd double | Decrement 'd | Clear

fun run :: "'d call list \<Rightarrow> 'd crp \<Rightarrow> engine \<Rightarrow> (error \<times> 'd crp) + ('d crp \<times> engine)" where
  "run [] s eng = Inr (s, eng)"
| "run (Increment dish p0 # cs) s eng =
     (case increment dish p0 s eng of
        Inl e \<Rightarrow> Inl e
      | Inr (r, s', eng') \<Rightarrow> run cs s' eng')"
| "run (Decrement dish # cs) s eng =
     (case decrement dish s eng of
        Inl e \<Rightarrow> Inl e
      | Inr (r, s', eng') \<Rightarrow> run cs s' eng')"
| "run (Clear # cs) s eng = run cs (clear s) eng"

subsection \<open>Example states\<close>

text \<open>An engine that delivers the same variate for ever.\<close>

definition steady :: "real \<Rightarrow> engine" where
  "steady u = sconst u"

definition empty_restaurant :: "string crp" where
  "empty_restaurant =
     \<lparr>num_tables = 0, num_customers = 0, dish_locs = [],
      discount = Fin (1 / 2), strength = Fin 1,
      discount_prior_strength = NaN, discount_prior_beta = NaN,
      strength_prior_shape = NaN, strength_prior_rate = NaN\<rparr>"

definition one_customer :: "string crp" where
  "one_customer =
     empty_restaurant
       \<lparr>num_tables := 1, num_customers := 1,
        dish_locs := [(''a'', \<lparr>tm_customers = 1, tm_tables = 1, tm_bins = [(1, 1)]\<rparr>)]\<rparr>"

text \<open>One table for dish \<open>a\<close> with \<open>k\<close> customers, as \<open>k\<close> seatings at that table leave it.\<close>

definition shared_table :: "nat \<Rightarrow> string crp" where
  "shared_table k =
     empty_restaurant
       \<lparr>num_tables := 1, num_customers := of_nat k,
        dish_locs := [(''a'', \<lparr>tm_customers = k, tm_tables = 1, tm_bins = [(k, 1)]\<rparr>)]\<rparr>"

text \<open>Restaurants with priors, and a slice sampler that keeps the value it is given.\<close>

definition with_priors :: "string crp" where
  "with_priors =
     empty_restaurant
       \<lparr>discount_prior_strength := Fin 1, discount_prior_beta := Fin 1,
        strength_prior_shape := Fin 1, strength_prior_rate := Fin 1\<rparr>"

definition zero_strength :: "string crp" where
  "zero_strength = empty_restaurant\<lparr>strength := Fin 0\<rparr>"

definition keep_value :: slice_sampler where
  "keep_value f x eng lo hi w n m = Inr (x, eng)"

definition tight_prior :: "string crp" where
  "tight_prior =
     \<lparr>num_tables = 0, num_customers = 0, dish_locs = [],
      discount = Fin (1 / 10), strength = Fin 0,
      discount_prior_strength = Fin 1, discount_prior_beta = Fin 2,
      strength_prior_shape = Fin 1, strength_prior_rate = Fin 1\<rparr>"


section \<open>Properties\<close>

subsection \<open>Seating and unseating one customer\<close>

lemma map_of_update_absent:
  "map_of m k = None \<Longrightarrow> AList.delete k (AList.update k v m) = m"
  by (induction m) (auto simp: AList.delete_eq split: if_splits)

text \<open>
  Claim C3. When the dish has exactly one seated customer, \<open>decrement\<close> erases the
  dish's entry from \<open>dish_locs\<close>, subtracts one from \<open>num_tables\<close> and from
  \<open>num_customers\<close> and returns \<open>-1\<close>. The histogram's \<open>remove_customer\<close> takes no part
  in the result, and the engine is handed back as it came: no variate is drawn.
\<close>

theorem decrement_last_customer:
  assumes "map_of (dish_locs s) dish = Some t" and "tm_customers t = 1"
  shows "decrement dish s eng =
           Inr (- 1, s\<lparr>dish_locs := AList.delete dish (dish_locs s),
                        num_tables := num_tables s - 1,
                        num_customers := num_customers s - 1\<rparr>, eng)
         \<and> map_of (AList.delete dish (dish_locs s)) dish = None"
  using assms by (simp add: decrement_def index_dish_def loc_of_def AList.delete_conv)

theorem decrement_last_customer_witness:
  "map_of (dish_locs one_customer) ''a'' = Some \<lparr>tm_customers = 1, tm_tables = 1, tm_bins = [(1, 1)]\<rparr>
   \<and> decrement ''a'' one_customer (sconst 0) = Inr (- 1, empty_restaurant, sconst 0)"
  using decrement_last_customer
    [of one_customer "''a''" "\<lparr>tm_customers = 1, tm_tables = 1, tm_bins = [(1, 1)]\<rparr>" "sconst 0"]
  by (simp add: one_customer_def empty_restaurant_def AList.delete_eq)

text \<open>
  Claim C4. For a dish that has no entry in \<open>dish_locs\<close>, \<open>increment\<close> opens a table
  (it returns 1 and draws nothing from the engine), and the \<open>decrement\<close> that follows
  returns \<open>-1\<close> and gives back the state from before the \<open>increment\<close>: \<open>num_tables\<close>,
  \<open>num_customers\<close> and the absence of the dish are restored, and so is everything else.
\<close>

theorem increment_then_decrement:
  assumes "map_of (dish_locs s) dish = None"
  shows "\<exists>s1 s2. increment dish p0 s eng = Inr (1, s1, eng)
           \<and> map_of (dish_locs s1) dish \<noteq> None
           \<and> decrement dish s1 eng = Inr (- 1, s2, eng)
           \<and> num_tables s2 = num_tables s
           \<and> num_customers s2 = num_customers s
           \<and> map_of (dish_locs s2) dish = None
           \<and> s2 = s"
  using assms
  by (simp add: increment_def decrement_def index_dish_def loc_of_def update_conv'
      new_table_manager_def create_table_def map_of_update_absent)

theorem increment_then_decrement_witness:
  "map_of (dish_locs empty_restaurant) ''a'' = None
   \<and> increment ''a'' (Fin 1) empty_restaurant (sconst 0) = Inr (1, one_customer, sconst 0)
   \<and> decrement ''a'' one_customer (sconst 0) = Inr (- 1, empty_restaurant, sconst 0)"
  using increment_then_decrement [of empty_restaurant "''a''" "Fin 1" "sconst 0"]
  by (simp add: increment_def decrement_def index_dish_def loc_of_def new_table_manager_def
      create_table_def one_customer_def empty_restaurant_def AList.delete_eq)

text \<open>
  Claim C10. For a dish that has no entry in \<open>dish_locs\<close>, \<open>decrement\<close> first lets
  \<open>operator[]\<close> insert a fresh histogram with zero customers and only then evaluates the
  assertion on the customer count. The assertion fails in a state in which the dish is
  a key with zero customers, and that state differs from the one the call started in.
\<close>

theorem decrement_absent_dish:
  assumes "map_of (dish_locs s) dish = None"
  shows "decrement dish s eng =
           Inl (Assert_num_customers,
                s\<lparr>dish_locs := AList.update dish new_table_manager (dish_locs s)\<rparr>)
         \<and> map_of (AList.update dish new_table_manager (dish_locs s)) dish = Some new_table_manager
         \<and> tm_customers new_table_manager = 0
         \<and> s\<lparr>dish_locs := AList.update dish new_table_manager (dish_locs s)\<rparr> \<noteq> s"
proof -
  have "AList.update dish new_table_manager (dish_locs s) \<noteq> dish_locs s"
    using assms by (metis update_conv' option.distinct(1) fun_upd_same)
  then have "s\<lparr>dish_locs := AList.update dish new_table_manager (dish_locs s)\<rparr> \<noteq> s"
    by (metis crp.select_convs(3) crp.surjective crp.update_convs(3))
  then show ?thesis
    using assms
    by (simp add: decrement_def index_dish_def loc_of_def update_conv' new_table_manager_def)
qed

theorem decrement_absent_dish_witness:
  "map_of (dish_locs empty_restaurant) ''a'' = None
   \<and> decrement ''a'' empty_restaurant (sconst 0) =
       Inl (Assert_num_customers,
            empty_restaurant\<lparr>dish_locs := [(''a'', \<lparr>tm_customers = 0, tm_tables = 0, tm_bins = []\<rparr>)]\<rparr>)"
  using decrement_absent_dish [of empty_restaurant "''a''" "sconst 0"]
  by (simp add: empty_restaurant_def new_table_manager_def)

subsection \<open>The histogram of one dish\<close>

lemma add_table_customers: "bins_customers (add_table_of_size k bs) = bins_customers bs + k"
  by (induction bs) (auto simp: bins_customers_def)

lemma add_table_tables: "bins_tables (add_table_of_size k bs) = bins_tables bs + 1"
  by (induction bs) (auto simp: bins_tables_def)

lemma add_table_positive: "1 \<le> k \<Longrightarrow> bins_positive bs \<Longrightarrow> bins_positive (add_table_of_size k bs)"
  by (induction bs) (auto simp: bins_positive_def)

lemma del_table_customers:
  "bins_positive bs \<Longrightarrow> k \<in> fst ` set bs \<Longrightarrow> bins_customers (del_table_of_size k bs) + k = bins_customers bs"
proof (induction bs)
  case Nil
  then show ?case by simp
next
  case (Cons b bs)
  obtain k' c where b: "b = (k', c)" by (cases b)
  show ?case
  proof (cases "k = k'")
    case True
    have "1 \<le> c" using Cons.prems(1) b by (simp add: bins_positive_def)
    then have "k' * (c - 1) + k' = k' * c"
      by (metis add.commute le_add_diff_inverse mult_Suc_right One_nat_def plus_1_eq_Suc)
    then show ?thesis using True b \<open>1 \<le> c\<close> by (auto simp: bins_customers_def)
  next
    case False
    then have "k \<in> fst ` set bs" using Cons.prems(2) b by auto
    moreover have "bins_positive bs" using Cons.prems(1) by (simp add: bins_positive_def)
    ultimately have "bins_customers (del_table_of_size k bs) + k = bins_customers bs"
      by (rule Cons.IH[rotated])
    then show ?thesis using False b by (simp add: bins_customers_def)
  qed
qed

lemma del_table_tables:
  "bins_positive bs \<Longrightarrow> k \<in> fst ` set bs \<Longrightarrow> bins_tables (del_table_of_size k bs) + 1 = bins_tables bs"
proof (induction bs)
  case Nil
  then show ?case by simp
next
  case (Cons b bs)
  obtain k' c where b: "b = (k', c)" by (cases b)
  show ?case
  proof (cases "k = k'")
    case True
    have "1 \<le> c" using Cons.prems(1) b by (simp add: bins_positive_def)
    then show ?thesis using True b by (auto simp: bins_tables_def)
  next
    case False
    then have "k \<in> fst ` set bs" using Cons.prems(2) b by auto
    moreover have "bins_positive bs" using Cons.prems(1) by (simp add: bins_positive_def)
    ultimately have "bins_tables (del_table_of_size k bs) + 1 = bins_tables bs"
      by (rule Cons.IH[rotated])
    then show ?thesis using False b by (simp add: bins_tables_def)
  qed
qed

lemma del_table_positive: "bins_positive bs \<Longrightarrow> bins_positive (del_table_of_size k bs)"
  by (induction bs) (auto simp: bins_positive_def)

lemma pick_bin_in_set: "pick_bin w r bs = Some b \<Longrightarrow> b \<in> set bs"
  by (induction w r bs rule: pick_bin.induct) (auto split: if_splits)

lemma pick_bin_Some: "bs \<noteq> [] \<Longrightarrow> \<exists>b. pick_bin w r bs = Some b"
  by (induction w r bs rule: pick_bin.induct) auto

lemma bins_positive_mem: "bins_positive bs \<Longrightarrow> (k, c) \<in> set bs \<Longrightarrow> 1 \<le> k \<and> 1 \<le> c"
  by (auto simp: bins_positive_def list_all_iff)

lemma bins_tables_le_customers: "bins_positive bs \<Longrightarrow> bins_tables bs \<le> bins_customers bs"
proof (induction bs)
  case Nil
  then show ?case by (simp add: bins_tables_def bins_customers_def)
next
  case (Cons b bs)
  have "1 \<le> fst b" and pos: "bins_positive bs"
    using Cons.prems by (simp_all add: bins_positive_def)
  then have "1 * snd b \<le> fst b * snd b" by (intro mult_le_mono1)
  moreover have "bins_tables bs \<le> bins_customers bs" using Cons.IH pos by simp
  moreover have "bins_tables (b # bs) = snd b + bins_tables bs"
    and "bins_customers (b # bs) = fst b * snd b + bins_customers bs"
    by (simp_all add: bins_tables_def bins_customers_def)
  ultimately show ?case by linarith
qed

lemma tm_inv_new: "tm_inv new_table_manager"
  by (simp add: tm_inv_def new_table_manager_def bins_positive_def bins_customers_def bins_tables_def)

lemma tm_inv_create_table: "tm_inv t \<Longrightarrow> tm_inv (create_table t)"
  by (simp add: tm_inv_def create_table_def add_table_customers add_table_tables add_table_positive)

lemma share_table_inv:
  assumes "share_table disc eng t = Some (t', eng')" and "tm_inv t"
  shows "tm_inv t' \<and> tm_customers t' = tm_customers t + 1 \<and> tm_tables t' = tm_tables t"
proof -
  obtain k c where pick: "pick_bin (share_weight disc) (dmul (Fin (shd eng)) (total_weight (share_weight disc) (tm_bins t))) (tm_bins t) = Some (k, c)"
    and t': "t' = t\<lparr>tm_bins := add_table_of_size (k + 1) (del_table_of_size k (tm_bins t)),
                     tm_customers := tm_customers t + 1\<rparr>"
    using assms(1) by (auto simp: share_table_def sample_uniform01_def split: option.splits)
  have mem: "(k, c) \<in> set (tm_bins t)" using pick by (rule pick_bin_in_set)
  then have k: "k \<in> fst ` set (tm_bins t)" by force
  have pos: "bins_positive (tm_bins t)" using assms(2) by (simp add: tm_inv_def)
  have "bins_customers (del_table_of_size k (tm_bins t)) + k = tm_customers t"
    and "bins_tables (del_table_of_size k (tm_bins t)) + 1 = tm_tables t"
    using del_table_customers[OF pos k] del_table_tables[OF pos k] assms(2) by (simp_all add: tm_inv_def)
  then show ?thesis
    using pos by (simp add: t' tm_inv_def add_table_customers add_table_tables add_table_positive del_table_positive)
qed

lemma remove_customer_inv:
  assumes "remove_customer eng t = Some (delta, t', eng')" and "tm_inv t"
  shows "tm_inv t' \<and> tm_customers t' + 1 = tm_customers t
         \<and> (delta = 0 \<and> tm_tables t' = tm_tables t \<or> delta = - 1 \<and> tm_tables t' + 1 = tm_tables t)"
proof -
  obtain k c where pick: "pick_bin remove_weight (dmul (Fin (shd eng)) (total_weight remove_weight (tm_bins t))) (tm_bins t) = Some (k, c)"
    using assms(1) by (auto simp: remove_customer_def sample_uniform01_def split: option.splits)
  have mem: "(k, c) \<in> set (tm_bins t)" using pick by (rule pick_bin_in_set)
  then have k: "k \<in> fst ` set (tm_bins t)" by force
  have pos: "bins_positive (tm_bins t)" using assms(2) by (simp add: tm_inv_def)
  have k1: "1 \<le> k" using bins_positive_mem[OF pos mem] by simp
  have dc: "bins_customers (del_table_of_size k (tm_bins t)) + k = tm_customers t"
    and dt: "bins_tables (del_table_of_size k (tm_bins t)) + 1 = tm_tables t"
    using del_table_customers[OF pos k] del_table_tables[OF pos k] assms(2) by (simp_all add: tm_inv_def)
  show ?thesis
  proof (cases "1 < k")
    case True
    then have t': "t' = t\<lparr>tm_bins := add_table_of_size (k - 1) (del_table_of_size k (tm_bins t)),
                     tm_customers := tm_customers t - 1\<rparr>" and d: "delta = 0"
      using assms(1) pick by (auto simp: remove_customer_def sample_uniform01_def)
    show ?thesis using True dc dt pos
      by (simp add: t' d tm_inv_def add_table_customers add_table_tables add_table_positive del_table_positive)
  next
    case False
    then have k_eq: "k = 1" using k1 by simp
    have t': "t' = t\<lparr>tm_bins := del_table_of_size k (tm_bins t),
                     tm_customers := tm_customers t - 1, tm_tables := tm_tables t - 1\<rparr>" and d: "delta = - 1"
      using assms(1) pick False by (auto simp: remove_customer_def sample_uniform01_def)
    show ?thesis using k_eq dc dt pos
      by (auto simp add: t' d tm_inv_def del_table_positive)
  qed
qed

lemma tm_inv_tables_le: "tm_inv t \<Longrightarrow> tm_tables t \<le> tm_customers t"
  by (simp add: tm_inv_def bins_tables_le_customers)

lemma tm_inv_bins_nonempty: "tm_inv t \<Longrightarrow> tm_customers t \<noteq> 0 \<Longrightarrow> tm_bins t \<noteq> []"
  by (auto simp: tm_inv_def bins_customers_def)

lemma tm_inv_tables_pos: "tm_inv t \<Longrightarrow> tm_customers t \<noteq> 0 \<Longrightarrow> 1 \<le> tm_tables t"
proof -
  assume inv: "tm_inv t" and c: "tm_customers t \<noteq> 0"
  then obtain b bs where bs: "tm_bins t = b # bs" using tm_inv_bins_nonempty by (cases "tm_bins t") auto
  then have "1 \<le> snd b" using inv by (simp add: tm_inv_def bins_positive_def)
  then show ?thesis using inv bs by (simp add: tm_inv_def bins_tables_def)
qed

subsection \<open>Sums over the dishes\<close>

lemma sum_update_absent:
  "map_of m k = None \<Longrightarrow>
   sum_list (map (\<lambda>e. f (snd e)) (AList.update k v m)) = sum_list (map (\<lambda>e. f (snd e)) m) + (f v :: nat)"
  by (induction m) (auto split: if_splits)

lemma sum_update_present:
  "map_of m k = Some t \<Longrightarrow>
   sum_list (map (\<lambda>e. f (snd e)) (AList.update k v m)) + f t
     = sum_list (map (\<lambda>e. f (snd e)) m) + (f v :: nat)"
  by (induction m) (auto split: if_splits)

lemma sum_delete_present:
  "distinct (map fst m) \<Longrightarrow> map_of m k = Some t \<Longrightarrow>
   sum_list (map (\<lambda>e. f (snd e)) (AList.delete k m)) + f t
     = sum_list (map (\<lambda>e. (f (snd e) :: nat)) m)"
proof (induction m)
  case Nil
  then show ?case by simp
next
  case (Cons e m)
  show ?case
  proof (cases "fst e = k")
    case True
    then have "k \<notin> fst ` set m" using Cons.prems(1) by auto
    then have "AList.delete k m = m" by simp
    then show ?thesis using True Cons.prems(2) by (auto simp: AList.delete_eq)
  next
    case False
    then show ?thesis using Cons by (auto simp: AList.delete_eq)
  qed
qed

lemma list_all_update:
  "list_all P m \<Longrightarrow> P (k, v) \<Longrightarrow> list_all P (AList.update k v m)"
  by (induction m) auto

lemma list_all_delete: "list_all P m \<Longrightarrow> list_all P (AList.delete k m)"
  by (induction m) (auto simp: AList.delete_eq)

lemma list_all_map_of:
  "list_all P m \<Longrightarrow> map_of m k = Some t \<Longrightarrow> P (k, t)"
  by (induction m) (auto split: if_splits)

lemma sum_mem_le:
  "map_of m k = Some t \<Longrightarrow> (f t :: nat) \<le> sum_list (map (\<lambda>e. f (snd e)) m)"
  by (induction m) (auto split: if_splits)

lemma increment_Inr_cases:
  assumes "increment dish p0 s eng = Inr (r, s', eng')"
  shows "(r = 1 \<and> s' = s\<lparr>dish_locs := AList.update dish (create_table (loc_of dish s)) (dish_locs s),
                          num_tables := num_tables s + 1, num_customers := num_customers s + 1\<rparr>)
       \<or> (r = 0 \<and> tm_customers (loc_of dish s) \<noteq> 0 \<and>
           (\<exists>loc' e1. share_table (discount s) e1 (loc_of dish s) = Some (loc', eng')
              \<and> s' = s\<lparr>dish_locs := AList.update dish loc' (dish_locs s),
                        num_customers := num_customers s + 1\<rparr>))"
proof (cases "map_of (dish_locs s) dish")
  case None
  then show ?thesis using assms
    by (auto simp: increment_def index_dish_def loc_of_def update_conv' new_table_manager_def
        create_table_def split: if_splits)
next
  case (Some t)
  then show ?thesis using assms
    by (auto simp: increment_def index_dish_def loc_of_def Let_def
        split: if_splits prod.splits option.splits)
qed

lemma decrement_Inr_cases:
  assumes "decrement dish s eng = Inr (r, s', eng')"
  shows "\<exists>t. map_of (dish_locs s) dish = Some t \<and> tm_customers t \<noteq> 0 \<and>
       ((tm_customers t = 1 \<and> r = - 1 \<and> eng' = eng \<and>
           s' = s\<lparr>dish_locs := AList.delete dish (dish_locs s),
                   num_tables := num_tables s - 1, num_customers := num_customers s - 1\<rparr>)
        \<or> (tm_customers t \<noteq> 1 \<and>
            (\<exists>loc'. remove_customer eng t = Some (r, loc', eng')
               \<and> s' = s\<lparr>dish_locs := AList.update dish loc' (dish_locs s),
                         num_customers := num_customers s - 1,
                         num_tables := (if r \<noteq> 0 then num_tables s - 1 else num_tables s)\<rparr>)))"
proof (cases "map_of (dish_locs s) dish")
  case None
  then show ?thesis using assms
    by (auto simp: decrement_def index_dish_def loc_of_def update_conv' new_table_manager_def)
next
  case (Some t)
  then show ?thesis using assms
    by (auto simp: decrement_def index_dish_def loc_of_def Let_def
        split: if_splits prod.splits option.splits)
qed

lemma entries_tables_le_customers:
  "list_all (\<lambda>e. tm_inv (snd e) \<and> 1 \<le> tm_customers (snd e)) m \<Longrightarrow>
   sum_list (map (\<lambda>e. tm_tables (snd e)) m) \<le> sum_list (map (\<lambda>e. tm_customers (snd e)) m)"
proof (induction m)
  case Nil
  then show ?case by simp
next
  case (Cons e m)
  then have "tm_tables (snd e) \<le> tm_customers (snd e)" by (simp add: tm_inv_tables_le)
  moreover have "sum_list (map (\<lambda>e. tm_tables (snd e)) m) \<le> sum_list (map (\<lambda>e. tm_customers (snd e)) m)"
    using Cons by simp
  ultimately show ?case by simp
qed

lemma crp_inv_tables_le: "crp_inv s \<Longrightarrow> total_tables s \<le> total_customers s"
  by (simp add: crp_inv_def total_tables_def total_customers_def entries_tables_le_customers)

lemma unat_plus_one: "unat (w :: u32) + 1 < 2 ^ 32 \<Longrightarrow> unat (w + 1) = unat w + 1"
  using unat_add_lem [of w 1] by simp

lemma unat_minus_one_u32: "1 \<le> unat (w :: u32) \<Longrightarrow> unat (w - 1) = unat w - 1"
  using unat_minus_one [of w] by (cases "w = 0") simp_all

subsection \<open>Every call keeps the invariants\<close>

text \<open>
  \<open>increment\<close>, \<open>decrement\<close> and \<open>clear\<close> keep the invariants with the counters read
  modulo \<open>2^32\<close>; the counters are the sums themselves as long as fewer than \<open>2^32\<close>
  customers are seated.
\<close>

lemma loc_of_inv_mod: "crp_inv_mod s \<Longrightarrow> tm_inv (loc_of dish s)"
proof (cases "map_of (dish_locs s) dish")
  case None
  then show ?thesis by (simp add: loc_of_def tm_inv_new)
next
  case (Some t)
  assume "crp_inv_mod s"
  then have "list_all (\<lambda>e. tm_inv (snd e) \<and> 1 \<le> tm_customers (snd e)) (dish_locs s)"
    by (simp add: crp_inv_mod_def)
  from list_all_map_of[OF this Some] show ?thesis using Some by (simp add: loc_of_def)
qed

lemma customers_update_mod:
  "sum_list (map (\<lambda>e. tm_customers (snd e)) (AList.update dish v (dish_locs s)))
     + tm_customers (loc_of dish s) = total_customers s + tm_customers v"
proof (cases "map_of (dish_locs s) dish")
  case None
  then show ?thesis using sum_update_absent[OF None, of tm_customers v]
    by (simp add: loc_of_def total_customers_def new_table_manager_def)
next
  case (Some t)
  then show ?thesis using sum_update_present[OF Some, of tm_customers v]
    by (simp add: loc_of_def total_customers_def)
qed

lemma tables_update_mod:
  "sum_list (map (\<lambda>e. tm_tables (snd e)) (AList.update dish v (dish_locs s)))
     + tm_tables (loc_of dish s) = total_tables s + tm_tables v"
proof (cases "map_of (dish_locs s) dish")
  case None
  then show ?thesis using sum_update_absent[OF None, of tm_tables v]
    by (simp add: loc_of_def total_tables_def new_table_manager_def)
next
  case (Some t)
  then show ?thesis using sum_update_present[OF Some, of tm_tables v]
    by (simp add: loc_of_def total_tables_def)
qed

lemma word_of_nat_cancel:
  fixes w :: u32
  assumes "a + c = t + v" and "w + of_nat c = of_nat t + of_nat v"
  shows "w = of_nat a"
proof -
  have "(of_nat (a + c) :: u32) = of_nat (t + v)"
    using assms(1) by simp
  then have "(of_nat a :: u32) + of_nat c = of_nat t + of_nat v"
    by (simp only: of_nat_add)
  then have "(of_nat a :: u32) + of_nat c = w + of_nat c" using assms(2) by simp
  then show ?thesis by (simp only: add_right_cancel)
qed

lemma crp_inv_mod_update:
  assumes inv: "crp_inv_mod s" and v: "tm_inv v" "1 \<le> tm_customers v"
    and nc: "nc + of_nat (tm_customers (loc_of dish s)) = num_customers s + of_nat (tm_customers v)"
    and nt: "nt + of_nat (tm_tables (loc_of dish s)) = num_tables s + of_nat (tm_tables v)"
  shows "crp_inv_mod (s\<lparr>dish_locs := AList.update dish v (dish_locs s), num_tables := nt, num_customers := nc\<rparr>)"
proof -
  have "distinct (map fst (AList.update dish v (dish_locs s)))"
    using inv by (simp add: crp_inv_mod_def distinct_update)
  moreover have "list_all (\<lambda>e. tm_inv (snd e) \<and> 1 \<le> tm_customers (snd e)) (AList.update dish v (dish_locs s))"
    using inv v by (simp add: crp_inv_mod_def list_all_update)
  moreover have "nc = of_nat (sum_list (map (\<lambda>e. tm_customers (snd e)) (AList.update dish v (dish_locs s))))"
    using customers_update_mod[of dish v s] nc inv
    by (intro word_of_nat_cancel) (simp_all add: crp_inv_mod_def)
  moreover have "nt = of_nat (sum_list (map (\<lambda>e. tm_tables (snd e)) (AList.update dish v (dish_locs s))))"
    using tables_update_mod[of dish v s] nt inv
    by (intro word_of_nat_cancel) (simp_all add: crp_inv_mod_def)
  ultimately show ?thesis by (simp add: crp_inv_mod_def total_customers_def total_tables_def)
qed

lemma increment_inv_mod:
  assumes inv: "crp_inv_mod s" and inc: "increment dish p0 s eng = Inr (r, s', eng')"
  shows "crp_inv_mod s'"
proof -
  let ?loc = "loc_of dish s"
  have li: "tm_inv ?loc" using inv by (rule loc_of_inv_mod)
  from increment_Inr_cases[OF inc] show ?thesis
  proof (elim disjE conjE exE)
    assume s': "s' = s\<lparr>dish_locs := AList.update dish (create_table ?loc) (dish_locs s),
                     num_tables := num_tables s + 1, num_customers := num_customers s + 1\<rparr>"
    show ?thesis unfolding s'
    proof (rule crp_inv_mod_update[OF inv])
      show "tm_inv (create_table ?loc)" using li by (rule tm_inv_create_table)
      show "1 \<le> tm_customers (create_table ?loc)" by (simp add: create_table_def)
      show "num_customers s + 1 + of_nat (tm_customers ?loc)
              = num_customers s + of_nat (tm_customers (create_table ?loc))"
        by (simp add: create_table_def)
      show "num_tables s + 1 + of_nat (tm_tables ?loc)
              = num_tables s + of_nat (tm_tables (create_table ?loc))"
        by (simp add: create_table_def)
    qed
  next
    fix loc' e1
    assume sh: "share_table (discount s) e1 ?loc = Some (loc', eng')"
      and s': "s' = s\<lparr>dish_locs := AList.update dish loc' (dish_locs s),
                     num_customers := num_customers s + 1\<rparr>"
    from share_table_inv[OF sh li] have l': "tm_inv loc'" "tm_customers loc' = tm_customers ?loc + 1"
      "tm_tables loc' = tm_tables ?loc" by simp_all
    have "crp_inv_mod (s\<lparr>dish_locs := AList.update dish loc' (dish_locs s),
                     num_tables := num_tables s, num_customers := num_customers s + 1\<rparr>)"
    proof (rule crp_inv_mod_update[OF inv])
      show "tm_inv loc'" by fact
      show "1 \<le> tm_customers loc'" using l' by simp
      show "num_customers s + 1 + of_nat (tm_customers ?loc) = num_customers s + of_nat (tm_customers loc')"
        using l' by simp
      show "num_tables s + of_nat (tm_tables ?loc) = num_tables s + of_nat (tm_tables loc')"
        using l' by simp
    qed
    then show ?thesis by (simp add: s')
  qed
qed

lemma decrement_inv_mod:
  assumes inv: "crp_inv_mod s" and dec: "decrement dish s eng = Inr (r, s', eng')"
  shows "crp_inv_mod s'"
proof -
  have nc: "num_customers s = of_nat (total_customers s)" and nt: "num_tables s = of_nat (total_tables s)"
    and dist: "distinct (map fst (dish_locs s))"
    and all: "list_all (\<lambda>e. tm_inv (snd e) \<and> 1 \<le> tm_customers (snd e)) (dish_locs s)"
    using inv by (simp_all add: crp_inv_mod_def)
  from decrement_Inr_cases[OF dec] obtain t where t: "map_of (dish_locs s) dish = Some t"
    and tc: "tm_customers t \<noteq> 0"
    and cases: "(tm_customers t = 1 \<and> r = - 1 \<and> eng' = eng \<and>
           s' = s\<lparr>dish_locs := AList.delete dish (dish_locs s),
                   num_tables := num_tables s - 1, num_customers := num_customers s - 1\<rparr>)
        \<or> (tm_customers t \<noteq> 1 \<and>
            (\<exists>loc'. remove_customer eng t = Some (r, loc', eng')
               \<and> s' = s\<lparr>dish_locs := AList.update dish loc' (dish_locs s),
                         num_customers := num_customers s - 1,
                         num_tables := (if r \<noteq> 0 then num_tables s - 1 else num_tables s)\<rparr>))"
    by blast
  have loc: "loc_of dish s = t" using t by (simp add: loc_of_def)
  have ti: "tm_inv t" using list_all_map_of[OF all t] by simp
  have tpos: "1 \<le> tm_tables t" using ti tc by (rule tm_inv_tables_pos)
  from cases show ?thesis
  proof (elim disjE conjE exE)
    assume one: "tm_customers t = 1"
      and s': "s' = s\<lparr>dish_locs := AList.delete dish (dish_locs s),
                   num_tables := num_tables s - 1, num_customers := num_customers s - 1\<rparr>"
    have tt: "tm_tables t = 1" using tm_inv_tables_le[OF ti] tpos one by simp
    have "sum_list (map (\<lambda>e. tm_customers (snd e)) (AList.delete dish (dish_locs s))) + 1 = total_customers s"
      using sum_delete_present[OF dist t, of tm_customers] one by (simp add: total_customers_def)
    then have dc: "total_customers s' + 1 = total_customers s"
      by (simp add: s' total_customers_def)
    have "sum_list (map (\<lambda>e. tm_tables (snd e)) (AList.delete dish (dish_locs s))) + 1 = total_tables s"
      using sum_delete_present[OF dist t, of tm_tables] tt by (simp add: total_tables_def)
    then have dt: "total_tables s' + 1 = total_tables s"
      by (simp add: s' total_tables_def)
    have "distinct (map fst (dish_locs s'))"
      and "list_all (\<lambda>e. tm_inv (snd e) \<and> 1 \<le> tm_customers (snd e)) (dish_locs s')"
      using dist all by (simp_all add: s' distinct_delete list_all_delete)
    moreover have "num_customers s' = of_nat (total_customers s')"
    proof -
      have "num_customers s = of_nat (total_customers s') + 1"
        using nc dc by (metis of_nat_Suc Suc_eq_plus1 add.commute)
      moreover have "num_customers s' = num_customers s - 1" by (simp add: s')
      ultimately show ?thesis by simp
    qed
    moreover have "num_tables s' = of_nat (total_tables s')"
    proof -
      have "num_tables s = of_nat (total_tables s') + 1"
        using nt dt by (metis of_nat_Suc Suc_eq_plus1 add.commute)
      moreover have "num_tables s' = num_tables s - 1" by (simp add: s')
      ultimately show ?thesis by simp
    qed
    ultimately show ?thesis by (simp add: crp_inv_mod_def)
  next
    fix loc'
    assume ne: "tm_customers t \<noteq> 1"
      and rm: "remove_customer eng t = Some (r, loc', eng')"
      and s': "s' = s\<lparr>dish_locs := AList.update dish loc' (dish_locs s),
                         num_customers := num_customers s - 1,
                         num_tables := (if r \<noteq> 0 then num_tables s - 1 else num_tables s)\<rparr>"
    from remove_customer_inv[OF rm ti] have l': "tm_inv loc'" "tm_customers loc' + 1 = tm_customers t"
      "r = 0 \<and> tm_tables loc' = tm_tables t \<or> r = - 1 \<and> tm_tables loc' + 1 = tm_tables t"
      by simp_all
    have "crp_inv_mod (s\<lparr>dish_locs := AList.update dish loc' (dish_locs s),
                     num_tables := (if r \<noteq> 0 then num_tables s - 1 else num_tables s),
                     num_customers := num_customers s - 1\<rparr>)"
    proof (rule crp_inv_mod_update[OF inv])
      show "tm_inv loc'" by fact
      show "1 \<le> tm_customers loc'" using l'(2) ne tc by linarith
      have "(of_nat (tm_customers t) :: u32) = of_nat (tm_customers loc') + 1"
        using l'(2) by (metis of_nat_Suc Suc_eq_plus1 add.commute)
      then show "num_customers s - 1 + of_nat (tm_customers (loc_of dish s))
                   = num_customers s + of_nat (tm_customers loc')"
        by (simp add: loc)
      from l'(3) show "(if r \<noteq> 0 then num_tables s - 1 else num_tables s) + of_nat (tm_tables (loc_of dish s))
              = num_tables s + of_nat (tm_tables loc')"
      proof (elim disjE conjE)
        assume "r = 0" and "tm_tables loc' = tm_tables t"
        then show ?thesis by (simp add: loc)
      next
        assume r: "r = - 1" and "tm_tables loc' + 1 = tm_tables t"
        then have "(of_nat (tm_tables t) :: u32) = of_nat (tm_tables loc') + 1"
          by (metis of_nat_Suc Suc_eq_plus1 add.commute)
        then show ?thesis using r by (simp add: loc)
      qed
    qed
    then show ?thesis
      by (cases "r = 0") (simp_all add: s' crp_inv_mod_def total_customers_def total_tables_def)
  qed
qed

lemma clear_inv_mod: "crp_inv_mod (clear s)"
  by (simp add: clear_def crp_inv_mod_def total_customers_def total_tables_def)

lemma run_inv_mod:
  "crp_inv_mod s \<Longrightarrow> run cs s eng = Inr (s', eng') \<Longrightarrow> crp_inv_mod s'"
proof (induction cs arbitrary: s eng)
  case Nil
  then show ?case by simp
next
  case (Cons c cs)
  show ?case
  proof (cases c)
    case (Increment dish p0)
    from Cons.prems(2) obtain r s1 eng1 where inc: "increment dish p0 s eng = Inr (r, s1, eng1)"
      and rest: "run cs s1 eng1 = Inr (s', eng')"
      by (auto simp: Increment split: sum.splits)
    from increment_inv_mod[OF Cons.prems(1) inc] show ?thesis using Cons.IH[of s1 eng1] rest by simp
  next
    case (Decrement dish)
    from Cons.prems(2) obtain r s1 eng1 where dec: "decrement dish s eng = Inr (r, s1, eng1)"
      and rest: "run cs s1 eng1 = Inr (s', eng')"
      by (auto simp: Decrement split: sum.splits)
    from decrement_inv_mod[OF Cons.prems(1) dec] show ?thesis using Cons.IH[of s1 eng1] rest by simp
  next
    case Clear
    have "run cs (clear s) eng = Inr (s', eng')" using Cons.prems(2) by (simp add: Clear)
    then show ?thesis using Cons.IH[of "clear s" eng] clear_inv_mod[of s] by simp
  qed
qed

lemma crp_inv_mod_below:
  assumes "crp_inv_mod s" and "total_customers s < 2 ^ 32"
  shows "crp_inv s"
proof -
  have all: "list_all (\<lambda>e. tm_inv (snd e) \<and> 1 \<le> tm_customers (snd e)) (dish_locs s)"
    using assms(1) by (simp add: crp_inv_mod_def)
  then have "total_tables s \<le> total_customers s"
    by (simp add: total_tables_def total_customers_def entries_tables_le_customers)
  then have "total_tables s < 2 ^ 32" using assms(2) by simp
  then have "unat (of_nat (total_tables s) :: u32) = total_tables s"
    by (simp add: unat_of_nat)
  moreover have "unat (of_nat (total_customers s) :: u32) = total_customers s"
    using assms(2) by (simp add: unat_of_nat)
  ultimately show ?thesis using assms(1) by (simp add: crp_inv_mod_def crp_inv_def)
qed

lemma fresh_inv_mod: "num_tables s = 0 \<Longrightarrow> num_customers s = 0 \<Longrightarrow> dish_locs s = [] \<Longrightarrow> crp_inv_mod s"
  by (simp add: crp_inv_mod_def total_customers_def total_tables_def)

lemma word_of_unat: "unat (w :: u32) = n \<Longrightarrow> w = of_nat n"
  by auto

lemma crp_inv_imp_mod: "crp_inv s \<Longrightarrow> crp_inv_mod s"
  by (simp add: crp_inv_def crp_inv_mod_def word_of_unat)

lemma crp_new_fresh:
  "crp_new disc str = Inr s0 \<Longrightarrow> num_tables s0 = 0 \<and> num_customers s0 = 0 \<and> dish_locs s0 = []"
  by (auto simp: crp_new_def check_hyperparameters_def split: if_splits)

lemma crp_new_priors_fresh:
  "crp_new_priors ds db cs cr d c = Inr s0 \<Longrightarrow>
   num_tables s0 = 0 \<and> num_customers s0 = 0 \<and> dish_locs s0 = []"
  by (auto simp: crp_new_priors_def check_hyperparameters_def split: if_splits)

text \<open>
  Claim C1, amended. Start from a freshly constructed restaurant (either constructor)
  and run any sequence of \<open>increment\<close>, \<open>decrement\<close> and \<open>clear\<close> calls in which no
  assertion fails, so every \<open>decrement\<close> finds a seated customer. If the run leaves
  fewer than \<open>2^32\<close> customers seated, then \<open>num_customers\<close> is the sum of the per-dish
  customer counts, \<open>num_tables\<close> is the sum of the per-dish table counts, and
  \<open>num_tables \<le> num_customers\<close>. The number of calls is not bounded; in particular
  every run during which fewer than \<open>2^32\<close> customers are seated at all times is
  covered.
\<close>

theorem counters_match_histograms:
  assumes "crp_new disc str = Inr s0 \<or> crp_new_priors ds db cs cr d c = Inr s0"
    and "run calls s0 eng = Inr (s, eng')"
    and "total_customers s < 2 ^ 32"
  shows "unat (num_customers s) = total_customers s
       \<and> unat (num_tables s) = total_tables s
       \<and> num_tables s \<le> num_customers s"
proof -
  have "num_tables s0 = 0 \<and> num_customers s0 = 0 \<and> dish_locs s0 = []"
    using assms(1) crp_new_fresh crp_new_priors_fresh by blast
  then have "crp_inv_mod s0" using fresh_inv_mod by blast
  then have "crp_inv_mod s" using run_inv_mod assms(2) by blast
  then have inv: "crp_inv s" using assms(3) by (rule crp_inv_mod_below)
  then have "unat (num_customers s) = total_customers s" and "unat (num_tables s) = total_tables s"
    by (simp_all add: crp_inv_def)
  moreover have "total_tables s \<le> total_customers s" using inv by (rule crp_inv_tables_le)
  ultimately show ?thesis by (simp add: word_le_nat_alt)
qed

subsection \<open>Seating many customers at one table\<close>

lemma shd_steady: "shd (steady u) = u"
  by (simp add: steady_def)

lemma stl_steady: "stl (steady u) = steady u"
  by (simp add: steady_def)

lemma first_increment:
  "increment ''a'' (Fin 1) empty_restaurant (steady 0) = Inr (1, shared_table 1, steady 0)"
  by (simp add: increment_def index_dish_def loc_of_def new_table_manager_def create_table_def
      empty_restaurant_def shared_table_def)

lemma next_increment:
  assumes "1 \<le> k"
  shows "increment ''a'' (Fin 1) (shared_table k) (steady 0) = Inr (0, shared_table (k + 1), steady 0)"
proof -
  have "0 < real k - 1 / 2" using assms by simp
  then show ?thesis using assms
    by (simp add: increment_def index_dish_def loc_of_def shared_table_def empty_restaurant_def
      sample_bernoulli_def sample_uniform01_def of_unsigned_def of_count_def dsub_def
      share_table_def share_weight_def shd_steady stl_steady algebra_simps)
qed

lemma run_shared:
  "1 \<le> k \<Longrightarrow> run (replicate n (Increment ''a'' (Fin 1))) (shared_table k) (steady 0)
     = Inr (shared_table (k + n), steady 0)"
proof (induction n arbitrary: k)
  case 0
  then show ?case by simp
next
  case (Suc n)
  then show ?case using next_increment[of k] Suc.IH[of "k + 1"] by simp
qed

lemma run_from_empty:
  "run (replicate (Suc n) (Increment ''a'' (Fin 1))) empty_restaurant (steady 0)
     = Inr (shared_table (Suc n), steady 0)"
  using first_increment run_shared[of 1 n] by simp

lemma last_decrement:
  "decrement ''a'' (shared_table 1) (steady 0) = Inr (- 1, empty_restaurant, steady 0)"
  by (simp add: decrement_def index_dish_def loc_of_def shared_table_def empty_restaurant_def)

lemma run_pairs:
  "run (concat (replicate n [Increment ''a'' (Fin 1), Decrement ''a''])) empty_restaurant (steady 0)
     = Inr (empty_restaurant, steady 0)"
proof (induction n)
  case 0
  show ?case by simp
next
  case (Suc n)
  then show ?case using last_decrement by (simp add: first_increment)
qed

text \<open>
  The amended claim at two runs from the fresh restaurant \<open>crp(0.5, 1.0)\<close>: \<open>2^32\<close>
  times a customer is seated and unseated again, which leaves the restaurant empty, and
  two customers are seated and one is unseated.
\<close>

theorem counters_match_histograms_witness:
  "crp_new (Fin (1 / 2)) (Fin 1) = Inr empty_restaurant
   \<and> run (concat (replicate 4294967296 [Increment ''a'' (Fin 1), Decrement ''a'']))
         empty_restaurant (steady 0) = Inr (empty_restaurant, steady 0)
   \<and> total_customers empty_restaurant < 2 ^ 32
   \<and> unat (num_customers empty_restaurant) = total_customers empty_restaurant
   \<and> unat (num_tables empty_restaurant) = total_tables empty_restaurant
   \<and> num_tables empty_restaurant \<le> num_customers empty_restaurant
   \<and> run [Increment ''a'' (Fin 1), Increment ''a'' (Fin 1), Decrement ''a''] empty_restaurant (steady 0)
       = Inr (one_customer, steady 0)
   \<and> total_customers one_customer < 2 ^ 32
   \<and> unat (num_customers one_customer) = total_customers one_customer
   \<and> unat (num_tables one_customer) = total_tables one_customer
   \<and> num_tables one_customer \<le> num_customers one_customer"
proof -
  have new: "crp_new (Fin (1 / 2)) (Fin 1) = Inr empty_restaurant"
    by (simp add: crp_new_def check_hyperparameters_def empty_restaurant_def)
  have pairs: "run (concat (replicate 4294967296 [Increment ''a'' (Fin 1), Decrement ''a'']))
         empty_restaurant (steady 0) = Inr (empty_restaurant, steady 0)"
    by (rule run_pairs)
  have t0: "total_customers empty_restaurant < 2 ^ 32"
    by (simp add: total_customers_def empty_restaurant_def)
  have dec: "decrement ''a'' (shared_table (1 + 1)) (steady 0) = Inr (0, one_customer, steady 0)"
    by (simp add: decrement_def index_dish_def loc_of_def shared_table_def one_customer_def
        empty_restaurant_def remove_customer_def sample_uniform01_def stl_steady)
  have run: "run [Increment ''a'' (Fin 1), Increment ''a'' (Fin 1), Decrement ''a''] empty_restaurant (steady 0)
       = Inr (one_customer, steady 0)"
    using first_increment next_increment[of 1] dec by simp
  have t1: "total_customers one_customer < 2 ^ 32"
    by (simp add: total_customers_def one_customer_def empty_restaurant_def)
  show ?thesis
    using counters_match_histograms[of "Fin (1 / 2)" "Fin 1" empty_restaurant NaN NaN NaN NaN NaN NaN
        "concat (replicate 4294967296 [Increment ''a'' (Fin 1), Decrement ''a''])" "steady 0"
        empty_restaurant "steady 0"]
      counters_match_histograms[of "Fin (1 / 2)" "Fin 1" empty_restaurant NaN NaN NaN NaN NaN NaN
        "[Increment ''a'' (Fin 1), Increment ''a'' (Fin 1), Decrement ''a'']" "steady 0"
        one_customer "steady 0"]
      new pairs t0 run t1
    by simp
qed

text \<open>
  Claim C1 as stated fails: the counters are 32-bit. After \<open>2^32\<close> calls
  \<open>increment(a, 1.0)\<close> on a fresh restaurant, with an engine whose variates are all 0
  so that every customer after the first shares the one table, \<open>num_customers\<close> has
  wrapped around to 0 while \<open>num_tables\<close> is 1 and the dish's histogram counts \<open>2^32\<close>
  customers.
\<close>

theorem counters_wrap_counterexample:
  "crp_new (Fin (1 / 2)) (Fin 1) = Inr empty_restaurant
   \<and> run (replicate 4294967296 (Increment ''a'' (Fin 1))) empty_restaurant (steady 0)
       = Inr (shared_table 4294967296, steady 0)
   \<and> num_customers (shared_table 4294967296) = 0
   \<and> num_tables (shared_table 4294967296) = 1
   \<and> total_customers (shared_table 4294967296) = 4294967296
   \<and> \<not> num_tables (shared_table 4294967296) \<le> num_customers (shared_table 4294967296)"
proof -
  have "crp_new (Fin (1 / 2)) (Fin 1) = Inr empty_restaurant"
    by (simp add: crp_new_def check_hyperparameters_def empty_restaurant_def)
  moreover have "run (replicate 4294967296 (Increment ''a'' (Fin 1))) empty_restaurant (steady 0)
       = Inr (shared_table 4294967296, steady 0)"
    using run_from_empty[of 4294967295] by simp
  moreover have "num_customers (shared_table 4294967296) = 0"
    and "num_tables (shared_table 4294967296) = 1"
    and "total_customers (shared_table 4294967296) = 4294967296"
    by (simp_all add: shared_table_def empty_restaurant_def total_customers_def)
  ultimately show ?thesis by simp
qed

subsection \<open>The effect of one increment\<close>

lemma share_table_Some:
  assumes "tm_bins t \<noteq> []"
  shows "\<exists>t'. share_table disc eng t = Some (t', stl eng)
           \<and> tm_customers t' = tm_customers t + 1 \<and> tm_tables t' = tm_tables t"
proof -
  obtain b where "pick_bin (share_weight disc)
      (dmul (Fin (shd eng)) (total_weight (share_weight disc) (tm_bins t))) (tm_bins t) = Some b"
    using pick_bin_Some[OF assms] by blast
  then show ?thesis
    by (cases b) (simp add: share_table_def sample_uniform01_def)
qed

lemma loc_of_update: "map_of (dish_locs s') dish = Some v \<Longrightarrow> loc_of dish s' = v"
  by (simp add: loc_of_def)

text \<open>
  What one \<open>increment\<close> does to a dish whose histogram holds a table whenever it has a
  customer, the counters as the 32-bit words they are.
\<close>

lemma increment_result:
  assumes "tm_customers (loc_of dish s) = 0 \<or> tm_bins (loc_of dish s) \<noteq> []"
  shows "\<exists>r s' eng'. increment dish p0 s eng = Inr (r, s', eng')
     \<and> (r = 0 \<or> r = 1)
     \<and> (tm_customers (loc_of dish s) = 0 \<longrightarrow> r = 1 \<and> eng' = eng)
     \<and> num_customers s' = num_customers s + 1
     \<and> tm_customers (loc_of dish s') = tm_customers (loc_of dish s) + 1
     \<and> num_tables s' = num_tables s + word_of_int r
     \<and> tm_tables (loc_of dish s') = tm_tables (loc_of dish s) + nat r"
proof -
  let ?s = "index_dish dish s" and ?loc = "loc_of dish s"
  have idx: "loc_of dish ?s = ?loc" "num_tables ?s = num_tables s" "num_customers ?s = num_customers s"
    by (auto simp: index_dish_def loc_of_def update_conv' split: option.splits)
  show ?thesis
  proof (cases "tm_customers ?loc = 0")
    case True
    then show ?thesis
      by (simp add: increment_def Let_def idx loc_of_update update_conv' create_table_def)
  next
    case False
    then have bins: "tm_bins ?loc \<noteq> []" using assms by simp
    obtain share eng1 where sb: "sample_bernoulli
        (dmul (dadd (strength ?s) (dmul (of_unsigned (num_tables ?s)) (discount ?s))) p0)
        (dsub (of_count (tm_customers ?loc)) (dmul (of_count (tm_tables ?loc)) (discount ?s))) eng
        = (share, eng1)"
      by (cases "sample_bernoulli
        (dmul (dadd (strength ?s) (dmul (of_unsigned (num_tables ?s)) (discount ?s))) p0)
        (dsub (of_count (tm_customers ?loc)) (dmul (of_count (tm_tables ?loc)) (discount ?s))) eng")
    show ?thesis
    proof (cases share)
      case True
      obtain t' where "share_table (discount ?s) eng1 ?loc = Some (t', stl eng1)"
        and "tm_customers t' = tm_customers ?loc + 1" and "tm_tables t' = tm_tables ?loc"
        using share_table_Some[OF bins] by blast
      then show ?thesis using False True sb
        by (simp add: increment_def Let_def idx loc_of_update update_conv')
    next
      case no: False
      then show ?thesis using False sb
        by (simp add: increment_def Let_def idx loc_of_update update_conv' create_table_def)
    qed
  qed
qed

lemma unat_plus_int:
  "r = 0 \<or> r = 1 \<Longrightarrow> unat (w :: u32) + nat r < 2 ^ 32 \<Longrightarrow> unat (w + word_of_int r) = unat w + nat r"
  using unat_plus_one[of w] by auto

text \<open>
  Claim C2, amended. Let the dish's histogram hold a table whenever it has a customer
  (invariant 5 of the data model). Then \<open>increment\<close> returns 0 or 1. When the dish has
  no seated customer it returns 1 and hands the engine back untouched: no variate is
  drawn. In every case the dish's customer count grows by one and the dish's table
  count by the returned value, and \<open>++\<close> advances the two counters as 32-bit words,
  \<open>num_customers\<close> by one and \<open>num_tables\<close> by the returned value. As numbers,
  \<open>num_customers\<close> grows by exactly one if it is below \<open>2^32 - 1\<close> before the call,
  and \<open>num_tables\<close> grows by exactly the returned value if that sum stays below
  \<open>2^32\<close>. No condition on \<open>p0\<close> is needed.
\<close>

theorem increment_effect:
  assumes "tm_customers (loc_of dish s) = 0 \<or> tm_bins (loc_of dish s) \<noteq> []"
  shows "\<exists>r s' eng'. increment dish p0 s eng = Inr (r, s', eng')
     \<and> (r = 0 \<or> r = 1)
     \<and> (tm_customers (loc_of dish s) = 0 \<longrightarrow> r = 1 \<and> eng' = eng)
     \<and> tm_customers (loc_of dish s') = tm_customers (loc_of dish s) + 1
     \<and> tm_tables (loc_of dish s') = tm_tables (loc_of dish s) + nat r
     \<and> num_customers s' = num_customers s + 1
     \<and> num_tables s' = num_tables s + word_of_int r
     \<and> (unat (num_customers s) + 1 < 2 ^ 32 \<longrightarrow>
          unat (num_customers s') = unat (num_customers s) + 1)
     \<and> (unat (num_tables s) + nat r < 2 ^ 32 \<longrightarrow>
          unat (num_tables s') = unat (num_tables s) + nat r)"
proof -
  from increment_result[OF assms, of p0 eng] show ?thesis
  proof (elim exE conjE)
    fix r s' eng'
    assume inc: "increment dish p0 s eng = Inr (r, s', eng')"
      and r: "r = 0 \<or> r = 1"
      and first: "tm_customers (loc_of dish s) = 0 \<longrightarrow> r = 1 \<and> eng' = eng"
      and nc: "num_customers s' = num_customers s + 1"
      and dc: "tm_customers (loc_of dish s') = tm_customers (loc_of dish s) + 1"
      and nt: "num_tables s' = num_tables s + word_of_int r"
      and dt: "tm_tables (loc_of dish s') = tm_tables (loc_of dish s) + nat r"
    have unc: "unat (num_customers s) + 1 < 2 ^ 32 \<longrightarrow>
        unat (num_customers s') = unat (num_customers s) + 1"
      using nc unat_plus_one[of "num_customers s"] by simp
    have unt: "unat (num_tables s) + nat r < 2 ^ 32 \<longrightarrow>
        unat (num_tables s') = unat (num_tables s) + nat r"
      using nt r unat_plus_int[of r "num_tables s"] by simp
    show ?thesis
      by (intro exI conjI) (rule inc r first dc dt nc nt unc unt)+
  qed
qed

theorem increment_effect_witness:
  "tm_customers (loc_of ''a'' empty_restaurant) = 0
   \<and> increment ''a'' (Fin 1) empty_restaurant (steady 0) = Inr (1, shared_table 1, steady 0)
   \<and> unat (num_customers empty_restaurant) + 1 < 2 ^ 32
   \<and> unat (num_customers (shared_table 1)) = unat (num_customers empty_restaurant) + 1
   \<and> tm_customers (loc_of ''a'' (shared_table 1)) = tm_customers (loc_of ''a'' empty_restaurant) + 1
   \<and> unat (num_tables empty_restaurant) + 1 < 2 ^ 32
   \<and> unat (num_tables (shared_table 1)) = unat (num_tables empty_restaurant) + 1
   \<and> tm_tables (loc_of ''a'' (shared_table 1)) = tm_tables (loc_of ''a'' empty_restaurant) + 1
   \<and> tm_bins (loc_of ''a'' (shared_table 1)) \<noteq> []
   \<and> increment ''a'' (Fin 1) (shared_table 1) (steady 0) = Inr (0, shared_table 2, steady 0)
   \<and> unat (num_customers (shared_table 1)) + 1 < 2 ^ 32
   \<and> unat (num_customers (shared_table 2)) = unat (num_customers (shared_table 1)) + 1
   \<and> tm_customers (loc_of ''a'' (shared_table 2)) = tm_customers (loc_of ''a'' (shared_table 1)) + 1
   \<and> unat (num_tables (shared_table 2)) = unat (num_tables (shared_table 1))
   \<and> tm_tables (loc_of ''a'' (shared_table 2)) = tm_tables (loc_of ''a'' (shared_table 1))"
  using increment_effect[of "''a''" empty_restaurant "Fin 1" "steady 0"]
    increment_effect[of "''a''" "shared_table 1" "Fin 1" "steady 0"]
    first_increment next_increment[of 1]
  by (simp add: loc_of_def empty_restaurant_def shared_table_def new_table_manager_def)

text \<open>
  Claim C2 as stated fails: \<open>num_customers\<close> is a 32-bit counter. The state that
  \<open>2^32 - 1\<close> calls \<open>increment(a, 1.0)\<close> reach from a fresh restaurant, with an engine
  whose variates are all 0, satisfies the invariants and has \<open>num_customers\<close> at
  \<open>2^32 - 1\<close>. One more \<open>increment\<close> seats a customer at the table and takes
  \<open>num_customers\<close> to 0: the counter does not increase by one.
\<close>

theorem increment_wraps_counterexample:
  "run (replicate 4294967295 (Increment ''a'' (Fin 1))) empty_restaurant (steady 0)
       = Inr (shared_table 4294967295, steady 0)
   \<and> crp_inv (shared_table 4294967295)
   \<and> increment ''a'' (Fin 1) (shared_table 4294967295) (steady 0)
       = Inr (0, shared_table 4294967296, steady 0)
   \<and> unat (num_customers (shared_table 4294967295)) = 4294967295
   \<and> unat (num_customers (shared_table 4294967296)) = 0"
proof -
  have "run (replicate 4294967295 (Increment ''a'' (Fin 1))) empty_restaurant (steady 0)
       = Inr (shared_table 4294967295, steady 0)"
    using run_from_empty[of 4294967294] by simp
  moreover have "crp_inv (shared_table 4294967295)"
    by (simp add: crp_inv_def shared_table_def empty_restaurant_def tm_inv_def bins_positive_def
        bins_customers_def bins_tables_def total_customers_def total_tables_def)
  moreover have "increment ''a'' (Fin 1) (shared_table 4294967295) (steady 0)
       = Inr (0, shared_table 4294967296, steady 0)"
    using next_increment[of 4294967295] by simp
  moreover have "unat (num_customers (shared_table 4294967295)) = 4294967295"
    and "unat (num_customers (shared_table 4294967296)) = 0"
    by (simp_all add: shared_table_def empty_restaurant_def)
  ultimately show ?thesis by simp
qed

subsection \<open>Which calls can fail\<close>

lemma remove_customer_Some:
  assumes "tm_bins t \<noteq> []"
  shows "\<exists>r. remove_customer eng t = Some r"
proof -
  obtain b where "pick_bin remove_weight
      (dmul (Fin (shd eng)) (total_weight remove_weight (tm_bins t))) (tm_bins t) = Some b"
    using pick_bin_Some[OF assms] by blast
  then show ?thesis
    by (cases b) (simp add: remove_customer_def sample_uniform01_def)
qed

lemma increment_no_failure:
  assumes "crp_inv_mod s"
  shows "increment dish p0 s eng \<noteq> Inl x"
proof -
  let ?loc = "loc_of dish s"
  have idx: "loc_of dish (index_dish dish s) = ?loc"
    by (auto simp: index_dish_def loc_of_def update_conv' split: option.splits)
  have "tm_customers ?loc \<noteq> 0 \<Longrightarrow> tm_bins ?loc \<noteq> []"
    using loc_of_inv_mod[OF assms, of dish] by (rule tm_inv_bins_nonempty)
  then have sh: "tm_customers ?loc \<noteq> 0 \<Longrightarrow> share_table d e ?loc \<noteq> None" for d e
    using share_table_Some[of ?loc d e] by auto
  show ?thesis
  proof
    assume "increment dish p0 s eng = Inl x"
    then obtain d e where "tm_customers ?loc \<noteq> 0" and "share_table d e ?loc = None"
      by (auto simp: increment_def Let_def idx split: prod.splits option.splits if_splits)
    then show False using sh by blast
  qed
qed

lemma decrement_failure:
  assumes "crp_inv_mod s" and "decrement dish s eng = Inl (e, s')"
  shows "e = Assert_num_customers"
proof -
  let ?loc = "loc_of dish s"
  have idx: "loc_of dish (index_dish dish s) = ?loc"
    by (auto simp: index_dish_def loc_of_def update_conv' split: option.splits)
  have "tm_customers ?loc \<noteq> 0 \<Longrightarrow> tm_bins ?loc \<noteq> []"
    using loc_of_inv_mod[OF assms(1), of dish] by (rule tm_inv_bins_nonempty)
  then have rm: "tm_customers ?loc \<noteq> 0 \<Longrightarrow> remove_customer eng ?loc \<noteq> None"
    using remove_customer_Some[of ?loc eng] by auto
  show ?thesis
  proof (rule ccontr)
    assume "e \<noteq> Assert_num_customers"
    then have "tm_customers ?loc \<noteq> 0" and "remove_customer eng ?loc = None"
      using assms(2)
      by (auto simp: decrement_def Let_def idx split: prod.splits option.splits if_splits)
    then show False using rm by blast
  qed
qed

text \<open>
  A run that starts in a state satisfying the invariants, the counters read modulo
  \<open>2^32\<close>, can only end early in the assertion of \<open>decrement\<close>, on a dish without a
  seated customer: \<open>increment\<close> and \<open>clear\<close> always return.
\<close>

lemma run_failure:
  "crp_inv_mod s \<Longrightarrow> run cs s eng = Inl (e, s') \<Longrightarrow> e = Assert_num_customers"
proof (induction cs arbitrary: s eng)
  case Nil
  then show ?case by simp
next
  case (Cons c cs)
  show ?case
  proof (cases c)
    case (Increment dish p0)
    obtain r s1 eng1 where inc: "increment dish p0 s eng = Inr (r, s1, eng1)"
      using increment_no_failure[OF Cons.prems(1), of dish p0 eng]
      by (cases "increment dish p0 s eng") auto
    then have rest: "run cs s1 eng1 = Inl (e, s')" using Cons.prems(2) by (simp add: Increment)
    from increment_inv_mod[OF Cons.prems(1) inc] show ?thesis using Cons.IH[of s1 eng1] rest by simp
  next
    case (Decrement dish)
    show ?thesis
    proof (cases "decrement dish s eng")
      case (Inl x)
      then have "x = (e, s')" using Cons.prems(2) by (simp add: Decrement)
      then show ?thesis using decrement_failure[OF Cons.prems(1)] Inl by simp
    next
      case (Inr y)
      obtain r s1 eng1 where y: "y = (r, s1, eng1)" by (cases y)
      then have dec: "decrement dish s eng = Inr (r, s1, eng1)" using Inr by simp
      then have rest: "run cs s1 eng1 = Inl (e, s')" using Cons.prems(2) by (simp add: Decrement)
      from decrement_inv_mod[OF Cons.prems(1) dec] show ?thesis using Cons.IH[of s1 eng1] rest by simp
    qed
  next
    case Clear
    have "run cs (clear s) eng = Inl (e, s')" using Cons.prems(2) by (simp add: Clear)
    then show ?thesis using Cons.IH[of "clear s" eng] clear_inv_mod[of s] by simp
  qed
qed

subsection \<open>Resampling with no customers\<close>

text \<open>
  Claim C9. With a prior present and \<open>num_customers\<close> zero,
  \<open>resample_hyperparameters\<close> returns at once: the state it leaves is the state it was
  given (hyperparameters, prior parameters, counters and \<open>dish_locs\<close>), the slice
  sampler is not called and the engine is not advanced.
\<close>

theorem resample_empty_restaurant:
  assumes "has_discount_prior s \<or> has_strength_prior s" and "num_customers s = 0"
  shows "resample_hyperparameters slice_sampler1d s eng nloop niterations = Inr (s, eng)"
  using assms by (simp add: resample_hyperparameters_def)

theorem resample_empty_restaurant_witness:
  "has_discount_prior with_priors \<and> num_customers with_priors = 0
   \<and> resample_hyperparameters keep_value with_priors (steady 0) 5 10 = Inr (with_priors, steady 0)"
  using resample_empty_restaurant [of with_priors keep_value "steady 0" 5 10]
  by (simp add: with_priors_def empty_restaurant_def has_discount_prior_def isnan_def)

subsection \<open>The predictive probability\<close>

lemma unat_nonzero: "(w :: u32) \<noteq> 0 \<Longrightarrow> 1 \<le> unat w"
  using unat_eq_zero[of w] by (cases "unat w") simp_all

lemma entries_tables_pos:
  "list_all (\<lambda>e. tm_inv (snd e) \<and> 1 \<le> tm_customers (snd e)) m \<Longrightarrow> m \<noteq> [] \<Longrightarrow>
   1 \<le> sum_list (map (\<lambda>e. tm_tables (snd e)) m)"
proof (induction m)
  case Nil
  then show ?case by simp
next
  case (Cons e m)
  then have "1 \<le> tm_tables (snd e)" using tm_inv_tables_pos[of "snd e"] by simp
  then show ?case by simp
qed

lemma crp_inv_tables_pos:
  assumes "crp_inv s" and "num_customers s \<noteq> 0"
  shows "1 \<le> unat (num_tables s)"
proof -
  have "total_customers s \<noteq> 0" using assms unat_nonzero[of "num_customers s"] by (simp add: crp_inv_def)
  then have "dish_locs s \<noteq> []" by (auto simp: total_customers_def)
  then show ?thesis using assms(1) entries_tables_pos[of "dish_locs s"]
    by (simp add: crp_inv_def total_tables_def)
qed

lemma crp_inv_entry:
  assumes "crp_inv s" and "map_of (dish_locs s) dish = Some t"
  shows "tm_tables t \<le> tm_customers t \<and> 1 \<le> tm_customers t \<and> tm_customers t \<le> unat (num_customers s)"
proof -
  have "tm_inv t \<and> 1 \<le> tm_customers t"
    using list_all_map_of[OF _ assms(2), of "\<lambda>e. tm_inv (snd e) \<and> 1 \<le> tm_customers (snd e)"] assms(1)
    by (simp add: crp_inv_def)
  moreover have "tm_customers t \<le> unat (num_customers s)"
    using sum_mem_le[OF assms(2), of tm_customers] assms(1) by (simp add: crp_inv_def total_customers_def)
  ultimately show ?thesis by (simp add: tm_inv_tables_le)
qed

text \<open>
  Claim C5, amended. In a state that satisfies the invariants, with
  \<open>0 \<le> discount < 1\<close> and \<open>strength > - discount\<close>, with \<open>p0 \<ge> 0\<close>, and with a
  customer seated or a strength other than zero, \<open>prob\<close> is the finite number given by
  the Pitman-Yor formula, with \<open>r = num_tables * discount + strength\<close>, and that number
  is not negative. \<open>prob\<close> is a function of the state alone: it has no state to return.
\<close>

theorem prob_formula:
  assumes inv: "crp_inv s"
    and hyp: "discount s = Fin d" "strength s = Fin c" "0 \<le> d" "d < 1" "- d < c"
    and p0: "0 \<le> p"
    and nz: "num_customers s \<noteq> 0 \<or> c \<noteq> 0"
  shows "prob s dish (Fin p) =
           Fin (case map_of (dish_locs s) dish of
                  None \<Rightarrow> (real (unat (num_tables s)) * d + c) * p / (real (unat (num_customers s)) + c)
                | Some t \<Rightarrow> (real (tm_customers t) - d * real (tm_tables t)
                             + (real (unat (num_tables s)) * d + c) * p)
                            / (real (unat (num_customers s)) + c))
         \<and> dle (Fin 0) (prob s dish (Fin p))"
proof -
  define n where "n = real (unat (num_customers s))"
  define m where "m = real (unat (num_tables s))"
  have full: "1 \<le> n \<and> 1 \<le> m" if "num_customers s \<noteq> 0"
  proof -
    have "1 \<le> unat (num_customers s)" using that by (rule unat_nonzero)
    moreover have "1 \<le> unat (num_tables s)" using inv that by (rule crp_inv_tables_pos)
    ultimately show ?thesis by (simp add: n_def m_def del: of_nat_unat)
  qed
  have void: "n = 0 \<and> m = 0" if "num_customers s = 0"
  proof -
    have "total_customers s = 0" using inv that by (simp add: crp_inv_def)
    then have "unat (num_tables s) = 0"
      using crp_inv_tables_le[OF inv] inv by (simp add: crp_inv_def)
    then show ?thesis using that by (simp add: n_def m_def del: of_nat_unat)
  qed
  have den: "n + c \<noteq> 0" and ratio: "0 \<le> (m * d + c) / (n + c)"
  proof -
    show "n + c \<noteq> 0"
    proof (cases "num_customers s = 0")
      case True
      then show ?thesis using nz void by simp
    next
      case False
      then show ?thesis using full hyp by force
    qed
    show "0 \<le> (m * d + c) / (n + c)"
    proof (cases "num_customers s = 0")
      case True
      then show ?thesis using void by simp
    next
      case False
      then have "1 \<le> n" and "1 \<le> m" using full by simp_all
      then have "d * 1 \<le> d * m" using hyp by (intro mult_left_mono) simp_all
      then have "0 \<le> m * d + c" using hyp by (simp add: mult.commute)
      moreover have "0 < n + c" using \<open>1 \<le> n\<close> hyp by linarith
      ultimately show ?thesis by simp
    qed
  qed
  have weight: "0 \<le> (m * d + c) * p / (n + c)"
  proof -
    have "0 \<le> (m * d + c) / (n + c) * p" using ratio p0 by (rule mult_nonneg_nonneg)
    then show ?thesis by (simp add: field_simps)
  qed
  show ?thesis
  proof (cases "map_of (dish_locs s) dish")
    case None
    have "prob s dish (Fin p) = Fin ((m * d + c) * p / (n + c))"
      using None den by (simp add: prob_def hyp of_unsigned_def n_def m_def del: of_nat_unat)
    then show ?thesis using None weight by (simp add: n_def m_def del: of_nat_unat)
  next
    case (Some t)
    from crp_inv_entry[OF inv Some] have e: "tm_tables t \<le> tm_customers t" "1 \<le> tm_customers t"
      "tm_customers t \<le> unat (num_customers s)" by simp_all
    have val: "prob s dish (Fin p) =
        Fin ((real (tm_customers t) - d * real (tm_tables t) + (m * d + c) * p) / (n + c))"
      using Some den
      by (simp add: prob_def hyp of_unsigned_def of_count_def dsub_def n_def m_def del: of_nat_unat)
    have "num_customers s \<noteq> 0" using e by auto
    then have "1 \<le> n" using full by simp
    then have pos: "0 < n + c" using hyp by linarith
    have "d * real (tm_tables t) \<le> 1 * real (tm_customers t)"
      using hyp e by (intro mult_mono) simp_all
    then have "0 \<le> (real (tm_customers t) - d * real (tm_tables t)) / (n + c)"
      using pos by simp
    then have "0 \<le> (real (tm_customers t) - d * real (tm_tables t)) / (n + c)
                   + (m * d + c) * p / (n + c)"
      using weight by simp
    then have "0 \<le> (real (tm_customers t) - d * real (tm_tables t) + (m * d + c) * p) / (n + c)"
      by (simp add: add_divide_distrib)
    then show ?thesis using val Some by (simp add: n_def m_def del: of_nat_unat)
  qed
qed

theorem prob_formula_witness:
  "crp_inv one_customer \<and> discount one_customer = Fin (1 / 2) \<and> strength one_customer = Fin 1
   \<and> num_customers one_customer \<noteq> 0
   \<and> prob one_customer ''a'' (Fin 1) = Fin 1
   \<and> prob one_customer ''b'' (Fin 1) = Fin (3 / 4)"
  using prob_formula [of one_customer "1 / 2" 1 1 "''a''"] prob_formula [of one_customer "1 / 2" 1 1 "''b''"]
  by (simp add: one_customer_def empty_restaurant_def crp_inv_def tm_inv_def bins_positive_def
      bins_customers_def bins_tables_def total_customers_def total_tables_def)

text \<open>
  Claim C5 as stated fails: in an empty restaurant with strength 0 (valid for a positive
  discount) both \<open>r * p0\<close> and \<open>num_customers + strength\<close> are zero, and the quotient
  is NaN, which is not a non-negative weight.
\<close>

theorem prob_nan_counterexample:
  "crp_new (Fin (1 / 2)) (Fin 0) = Inr zero_strength
   \<and> crp_inv zero_strength
   \<and> prob zero_strength ''a'' (Fin 1) = NaN
   \<and> \<not> dle (Fin 0) (prob zero_strength ''a'' (Fin 1))"
  by (simp add: crp_new_def check_hyperparameters_def zero_strength_def empty_restaurant_def
      crp_inv_def total_customers_def total_tables_def prob_def of_unsigned_def signed_inf_def)

subsection \<open>The gamma function at 1, 2 and 3\<close>

lemma over_1: "(\<lambda>n. real n / real (n + 1)) \<longlonglongrightarrow> 1"
  using LIMSEQ_n_over_Suc_n by simp

lemma over_2: "(\<lambda>n. real n / real (n + 2)) \<longlonglongrightarrow> 1"
proof -
  have eq: "real n / real (n + 1) * (real (Suc n) / real (Suc n + 1)) = real n / real (n + 2)" for n
    by (simp add: add.commute)
  have "(\<lambda>n. real (Suc n) / real (Suc n + 1)) \<longlonglongrightarrow> 1"
    using over_1 by (rule LIMSEQ_Suc)
  then have "(\<lambda>n. real n / real (n + 1) * (real (Suc n) / real (Suc n + 1))) \<longlonglongrightarrow> 1 * 1"
    by (intro tendsto_mult over_1)
  then have "(\<lambda>n. real n / real (n + 2)) \<longlonglongrightarrow> 1 * 1"
    by (simp only: eq)
  then show ?thesis by (simp only: mult_1_left)
qed

lemma over_3: "(\<lambda>n. real n / real (n + 3)) \<longlonglongrightarrow> 1"
proof -
  have eq: "real n / real (n + 1) * (real (Suc n) / real (Suc n + 2)) = real n / real (n + 3)" for n
    by (simp add: add.commute)
  have "(\<lambda>n. real (Suc n) / real (Suc n + 2)) \<longlonglongrightarrow> 1"
    using over_2 by (rule LIMSEQ_Suc)
  then have "(\<lambda>n. real n / real (n + 1) * (real (Suc n) / real (Suc n + 2))) \<longlonglongrightarrow> 1 * 1"
    by (intro tendsto_mult over_1)
  then have "(\<lambda>n. real n / real (n + 3)) \<longlonglongrightarrow> 1 * 1"
    by (simp only: eq)
  then show ?thesis by (simp only: mult_1_left)
qed

lemma pochhammer_one: "pochhammer (1 :: real) (Suc n) = fact n * real (n + 1)"
  using pochhammer_fact[of "Suc n", where 'a = real] by (simp add: algebra_simps)

lemma pochhammer_two: "pochhammer (2 :: real) n = fact (n + 1)"
  by (induction n) (simp_all add: pochhammer_Suc algebra_simps)

lemma pochhammer_three: "2 * pochhammer (3 :: real) n = fact (n + 2)"
  by (induction n) (simp_all add: pochhammer_Suc algebra_simps)

lemma gamma_approx_1: "gamma_approx 1 n = real n / real (n + 1)"
proof -
  have "gamma_approx 1 n = fact n * real n powr 1 / (fact n * real (n + 1))"
    by (simp only: gamma_approx_def pochhammer_one)
  also have "\<dots> = real n powr 1 / real (n + 1)"
    by (rule mult_divide_mult_cancel_left) simp
  finally show ?thesis by simp
qed

lemma gamma_approx_2:
  "gamma_approx 2 n = real n / real (n + 1) * (real n / real (n + 2))"
proof -
  have sq: "real n powr 2 = real n * real n"
    by (cases "n = 0") (simp_all add: power2_eq_square)
  have poch: "pochhammer (2 :: real) (Suc n) = fact n * (real (n + 1) * real (n + 2))"
    by (simp add: pochhammer_two algebra_simps)
  have "gamma_approx 2 n = fact n * (real n * real n) / (fact n * (real (n + 1) * real (n + 2)))"
    by (simp only: gamma_approx_def sq poch)
  also have "\<dots> = (real n * real n) / (real (n + 1) * real (n + 2))"
    by (rule mult_divide_mult_cancel_left) simp
  finally show ?thesis by simp
qed

lemma gamma_approx_3:
  "gamma_approx 3 n = 2 * (real n / real (n + 1) * (real n / real (n + 2)) * (real n / real (n + 3)))"
proof -
  have cube: "real n powr 3 = real n * real n * real n"
    by (cases "n = 0") (simp_all add: power3_eq_cube)
  have "2 * pochhammer (3 :: real) (Suc n) = fact n * (real (n + 1) * real (n + 2) * real (n + 3))"
    unfolding pochhammer_three by (simp add: algebra_simps)
  then have poch: "pochhammer (3 :: real) (Suc n)
      = fact n * (real (n + 1) * real (n + 2) * real (n + 3) / 2)" by simp
  have "gamma_approx 3 n = fact n * (real n * real n * real n)
      / (fact n * (real (n + 1) * real (n + 2) * real (n + 3) / 2))"
    by (simp only: gamma_approx_def cube poch)
  also have "\<dots> = (real n * real n * real n) / (real (n + 1) * real (n + 2) * real (n + 3) / 2)"
    by (rule mult_divide_mult_cancel_left) simp
  finally show ?thesis by simp
qed

lemma gamma_function_1: "gamma_function 1 = 1"
proof -
  have "gamma_approx 1 \<longlonglongrightarrow> 1"
    using over_1 by (simp add: gamma_approx_1 [abs_def])
  then show ?thesis unfolding gamma_function_def by (rule limI)
qed

lemma gamma_function_2: "gamma_function 2 = 1"
proof -
  have "(\<lambda>n. real n / real (n + 1) * (real n / real (n + 2))) \<longlonglongrightarrow> 1 * 1"
    by (intro tendsto_mult over_1 over_2)
  then have "gamma_approx 2 \<longlonglongrightarrow> 1"
    by (simp add: gamma_approx_2 [abs_def])
  then show ?thesis unfolding gamma_function_def by (rule limI)
qed

lemma gamma_function_3: "gamma_function 3 = 2"
proof -
  have "(\<lambda>n. 2 * (real n / real (n + 1) * (real n / real (n + 2)) * (real n / real (n + 3))))
          \<longlonglongrightarrow> 2 * (1 * 1 * 1)"
    by (intro tendsto_mult tendsto_const over_1 over_2 over_3)
  then have "gamma_approx 3 \<longlonglongrightarrow> 2"
    by (simp add: gamma_approx_3 [abs_def])
  then show ?thesis unfolding gamma_function_def by (rule limI)
qed

subsection \<open>The assertion on the hyperprior\<close>

lemma ln_nine_fifths: "1 / 10 < ln (9 / 10 :: real) + ln 2"
proof -
  have "exp (1 / 10 :: real) \<le> 1 + 1 / 10 + (1 / 10)\<^sup>2"
    by (rule exp_bound) simp_all
  also have "\<dots> < 9 / 5" by (simp add: power2_eq_square)
  finally have "exp (1 / 10 :: real) < 9 / 5" .
  then have "1 / 10 < ln (9 / 5 :: real)"
    by (metis exp_gt_zero ln_exp ln_less_cancel_iff order_less_trans)
  moreover have "ln (9 / 5 :: real) = ln (9 / 10) + ln 2"
    using ln_mult[of "9 / 10 :: real" 2] by simp
  ultimately show ?thesis by simp
qed

lemma hyperprior_tight_prior:
  "hyperprior tight_prior (Fin (1 / 10)) (Fin 0) = Fin (ln (9 / 10) + ln 2 - 1 / 10)"
  by (simp add: hyperprior_def tight_prior_def has_discount_prior_def has_strength_prior_def
      isnan_def log_beta_density_def log_gamma_density_def log_beta_fn_def dsub_def
      gamma_function_1 gamma_function_2 gamma_function_3)

text \<open>
  Claim C7 fails on the code. The restaurant
  \<open>crp(1, 2, 1, 1, 0.1, 0.0)\<close> has valid hyperparameters and positive prior
  parameters: a Beta(1, 2) prior on the discount 0.1 and a Gamma(1, 1) prior on
  \<open>strength + discount = 0.1\<close>. Its hyperprior contribution is
  \<open>ln 1.8 - 0.1 > 0\<close> (a density may exceed 1), so the assertion \<open>lp <= 0.0\<close> of
  \<open>log_likelihood\<close> fails.
\<close>

theorem hyperprior_exceeds_zero:
  "crp_new_priors (Fin 1) (Fin 2) (Fin 1) (Fin 1) (Fin (1 / 10)) (Fin 0) = Inr tight_prior
   \<and> hyperprior tight_prior (discount tight_prior) (strength tight_prior)
       = Fin (ln (9 / 10) + ln 2 - 1 / 10)
   \<and> \<not> dle (hyperprior tight_prior (discount tight_prior) (strength tight_prior)) (Fin 0)
   \<and> log_likelihood tight_prior = Inl Assert_lp_nonpositive"
proof -
  have "crp_new_priors (Fin 1) (Fin 2) (Fin 1) (Fin 1) (Fin (1 / 10)) (Fin 0) = Inr tight_prior"
    by (simp add: crp_new_priors_def check_hyperparameters_def tight_prior_def)
  moreover have d: "discount tight_prior = Fin (1 / 10)" and s: "strength tight_prior = Fin 0"
    by (simp_all add: tight_prior_def)
  moreover have "\<not> dle (Fin (ln (9 / 10) + ln 2 - 1 / 10)) (Fin 0)"
    using ln_nine_fifths by simp
  ultimately show ?thesis
    by (simp add: hyperprior_tight_prior log_likelihood_def log_likelihood_at_def)
qed

subsection \<open>The ways the likelihood ends\<close>









end
